theory Spec2Isabelle
  imports Complex_Main "HOL-Library.Word"
begin

section \<open>JavaScript numbers\<close>

text \<open>
  A JavaScript \<^verbatim>\<open>number\<close> is an IEEE 754 double. It is modelled by the real number
  it denotes, and every arithmetic operation of the source rounds its exact result to the
  nearest double (53 significant bits, ties to the even significand), as the hardware does.
  The exponent range is not modelled: there is no overflow to \<^verbatim>\<open>Infinity\<close>, no
  subnormal number and no \<^verbatim>\<open>NaN\<close>, so the model is the source as long as no
  result leaves the range of the normal doubles; colour channels between 0 and 255 stay
  far inside it.
\<close>

type_synonym number = real

definition round_even :: "real \<Rightarrow> int" where
  "round_even q =
     (if q - of_int \<lfloor>q\<rfloor> < 1 / 2 then \<lfloor>q\<rfloor>
      else if 1 / 2 < q - of_int \<lfloor>q\<rfloor> then \<lfloor>q\<rfloor> + 1
      else if even \<lfloor>q\<rfloor> then \<lfloor>q\<rfloor> else \<lfloor>q\<rfloor> + 1)"

text \<open>The binary exponent of a positive number: \<open>exp_up\<close> counts the halvings of a
  number from 2 upwards, \<open>exp_down\<close> the doublings of a number below 1.\<close>

function exp_up :: "real \<Rightarrow> nat" where
  "exp_up x = (if x < 2 then 0 else Suc (exp_up (x / 2)))"
  by pat_completeness auto
termination
proof (relation "measure (\<lambda>x. nat \<lfloor>x\<rfloor>)")
  show "wf (measure (\<lambda>x::real. nat \<lfloor>x\<rfloor>))" by simp
next
  fix x :: real assume "\<not> x < 2"
  then have "\<lfloor>x / 2\<rfloor> < \<lfloor>x\<rfloor>" "0 < \<lfloor>x\<rfloor>" by linarith+
  then show "(x / 2, x) \<in> measure (\<lambda>x. nat \<lfloor>x\<rfloor>)" by simp
qed

function exp_down :: "real \<Rightarrow> nat" where
  "exp_down x = (if x \<le> 0 \<or> 1 \<le> x then 0 else Suc (exp_down (2 * x)))"
  by pat_completeness auto
termination
proof (relation "measure (\<lambda>x. nat \<lfloor>1 / x\<rfloor>)")
  show "wf (measure (\<lambda>x::real. nat \<lfloor>1 / x\<rfloor>))" by simp
next
  fix x :: real assume "\<not> (x \<le> 0 \<or> 1 \<le> x)"
  then have x: "0 < x" "x < 1" by auto
  define y where "y = 1 / x"
  have y: "1 < y" using x by (simp add: y_def)
  have pos: "0 < \<lfloor>y\<rfloor>" using y by linarith
  then have "1 \<le> (of_int \<lfloor>y\<rfloor> :: real)" by linarith
  moreover have "y < of_int \<lfloor>y\<rfloor> + 1" by linarith
  ultimately have "y / 2 < of_int \<lfloor>y\<rfloor>" by linarith
  then have "\<lfloor>y / 2\<rfloor> < \<lfloor>y\<rfloor>" by (simp only: floor_less_iff)
  moreover have "1 / (2 * x) = y / 2" by (simp add: y_def)
  ultimately have "\<lfloor>1 / (2 * x)\<rfloor> < \<lfloor>1 / x\<rfloor>" by (simp only: y_def)
  moreover have "0 < \<lfloor>1 / x\<rfloor>" using pos by (simp only: y_def)
  ultimately have "nat \<lfloor>1 / (2 * x)\<rfloor> < nat \<lfloor>1 / x\<rfloor>" by linarith
  then show "(2 * x, x) \<in> measure (\<lambda>x. nat \<lfloor>1 / x\<rfloor>)"
    by (simp only: in_measure)
qed

declare exp_up.simps [simp del] exp_down.simps [simp del]

definition expo :: "real \<Rightarrow> int" where
  "expo x = (if 1 \<le> x then int (exp_up x) else - int (exp_down x))"

definition quantize :: "real \<Rightarrow> int \<Rightarrow> real" where
  "quantize a e = 2 powi (e - 52) * of_int (round_even (a / 2 powi (e - 52)))"

definition rnd :: "real \<Rightarrow> number" where
  "rnd x = (if x = 0 then 0 else sgn x * quantize \<bar>x\<bar> (expo \<bar>x\<bar>))"

text \<open>The operators \<^verbatim>\<open>+ - * /\<close> of the source, and a decimal literal such as
  \<^verbatim>\<open>0.299\<close>, which denotes the double nearest to it.\<close>

definition js_add :: "number \<Rightarrow> number \<Rightarrow> number" where
  "js_add x y = rnd (x + y)"

definition js_sub :: "number \<Rightarrow> number \<Rightarrow> number" where
  "js_sub x y = rnd (x - y)"

definition js_mul :: "number \<Rightarrow> number \<Rightarrow> number" where
  "js_mul x y = rnd (x * y)"

definition js_div :: "number \<Rightarrow> number \<Rightarrow> number" where
  "js_div x y = rnd (x / y)"

definition lit :: "real \<Rightarrow> number" where
  "lit x = rnd x"

text \<open>\<^verbatim>\<open>Math.round\<close>: the nearest integer, a tie going towards plus infinity.\<close>

definition Math_round :: "number \<Rightarrow> int" where
  "Math_round x = \<lfloor>x + 1 / 2\<rfloor>"

section \<open>Strings of digits\<close>

text \<open>A string is a list of characters. \<^verbatim>\<open>\d\<close> matches the ten ASCII digits;
  \<^verbatim>\<open>\s\<close> matches, among the characters below 256, tab, line feed, vertical tab,
  form feed, carriage return, space and the no-break space.\<close>

definition isDigit :: "char \<Rightarrow> bool" where
  "isDigit c = (c \<in> set ''0123456789'')"

definition isSpace :: "char \<Rightarrow> bool" where
  "isSpace c = ((of_char c :: nat) \<in> {9, 10, 11, 12, 13, 32, 160})"

definition digit_char :: "nat \<Rightarrow> char" where
  "digit_char d = ''0123456789'' ! d"

definition digit_val :: "char \<Rightarrow> nat" where
  "digit_val c = of_char c - 48"

text \<open>The decimal digits of an integer, as a template literal prints a number that
  \<^verbatim>\<open>Math.round\<close> returned (plain digits are what JavaScript prints below
  \<open>10\<^sup>2\<^sup>1\<close>).\<close>

function show_nat :: "nat \<Rightarrow> string" where
  "show_nat n = (if n < 10 then [digit_char n] else show_nat (n div 10) @ [digit_char (n mod 10)])"
  by pat_completeness auto
termination
  by (relation "measure id") auto

declare show_nat.simps [simp del]

definition number_toString :: "int \<Rightarrow> string" where
  "number_toString i = (if i < 0 then CHR ''-'' # show_nat (nat (- i)) else show_nat (nat i))"

text \<open>\<^verbatim>\<open>parseInt\<close> on a string of digits: its decimal value, as a double.\<close>

definition decimal :: "string \<Rightarrow> nat" where
  "decimal ds = foldl (\<lambda>a c. 10 * a + digit_val c) 0 ds"

definition parseInt :: "string \<Rightarrow> number" where
  "parseInt ds = rnd (of_nat (decimal ds))"

section \<open>The colour utilities (colorFilters.ts)\<close>

datatype FilterType =
  Filter_none | frame_based | vibrant | dynamic | contrast | neon | gradient_flow

record RGB =
  rgb_r :: number
  rgb_g :: number
  rgb_b :: number

subsection \<open>The pattern \<^verbatim>\<open>/rgb\((\d+),\s*(\d+),\s*(\d+)\)/\<close>\<close>

text \<open>\<^verbatim>\<open>String.prototype.match\<close> tries every start position from the left and
  returns the first match with its three groups. \<^verbatim>\<open>\d+\<close> and \<^verbatim>\<open>\s*\<close>
  are greedy.\<close>

fun match_lit :: "string \<Rightarrow> string \<Rightarrow> string option" where
  "match_lit [] s = Some s"
| "match_lit (p # ps) [] = None"
| "match_lit (p # ps) (c # cs) = (if p = c then match_lit ps cs else None)"

definition match_digits :: "string \<Rightarrow> (string \<times> string) option" where
  "match_digits s =
     (if takeWhile isDigit s = [] then None
      else Some (takeWhile isDigit s, dropWhile isDigit s))"

definition match_here :: "string \<Rightarrow> (string \<times> string \<times> string) option" where
  "match_here s =
     (case match_lit ''rgb('' s of None \<Rightarrow> None | Some s1 \<Rightarrow>
      case match_digits s1 of None \<Rightarrow> None | Some (m1, s2) \<Rightarrow>
      case match_lit '','' s2 of None \<Rightarrow> None | Some s3 \<Rightarrow>
      case match_digits (dropWhile isSpace s3) of None \<Rightarrow> None | Some (m2, s4) \<Rightarrow>
      case match_lit '','' s4 of None \<Rightarrow> None | Some s5 \<Rightarrow>
      case match_digits (dropWhile isSpace s5) of None \<Rightarrow> None | Some (m3, s6) \<Rightarrow>
      case match_lit '')'' s6 of None \<Rightarrow> None | Some s7 \<Rightarrow> Some (m1, m2, m3))"

fun match_rgb :: "string \<Rightarrow> (string \<times> string \<times> string) option" where
  "match_rgb [] = match_here []"
| "match_rgb (c # cs) =
     (case match_here (c # cs) of Some m \<Rightarrow> Some m | None \<Rightarrow> match_rgb cs)"

definition parseRGB :: "string \<Rightarrow> RGB" where
  "parseRGB color =
     (case match_rgb color of
        None \<Rightarrow> \<lparr>rgb_r = 0, rgb_g = 0, rgb_b = 0\<rparr>
      | Some (m1, m2, m3) \<Rightarrow> \<lparr>rgb_r = parseInt m1, rgb_g = parseInt m2, rgb_b = parseInt m3\<rparr>)"

definition rgb_string :: "int \<Rightarrow> int \<Rightarrow> int \<Rightarrow> string" where
  "rgb_string x y z =
     ''rgb('' @ number_toString x @ '', '' @ number_toString y @ '', '' @ number_toString z @ '')''"

definition rgbToString :: "RGB \<Rightarrow> string" where
  "rgbToString rgb =
     rgb_string (Math_round (rgb_r rgb)) (Math_round (rgb_g rgb)) (Math_round (rgb_b rgb))"

subsection \<open>The filters\<close>

definition enhanceVibrance :: "RGB \<Rightarrow> RGB" where
  "enhanceVibrance rgb =
     (let mx = max (max (rgb_r rgb) (rgb_g rgb)) (rgb_b rgb);
          saturationBoost = lit (13 / 10);
          minBoost = lit (7 / 10)
      in if mx = 0 then rgb
         else \<lparr>rgb_r = min 255 (js_mul (rgb_r rgb) (if rgb_r rgb = mx then saturationBoost else minBoost)),
               rgb_g = min 255 (js_mul (rgb_g rgb) (if rgb_g rgb = mx then saturationBoost else minBoost)),
               rgb_b = min 255 (js_mul (rgb_b rgb) (if rgb_b rgb = mx then saturationBoost else minBoost))\<rparr>)"

definition applyVibrantFilter :: "RGB \<Rightarrow> string" where
  "applyVibrantFilter rgb =
     (let enhanced = enhanceVibrance rgb;
          brightness = js_div (js_add (js_add (rgb_r enhanced) (rgb_g enhanced)) (rgb_b enhanced))
                              (js_mul 3 255);
          boost = (if brightness < lit (1 / 2) then lit (14 / 10) else lit (11 / 10))
      in rgbToString
           \<lparr>rgb_r = min 255 (js_mul (rgb_r enhanced) boost),
            rgb_g = min 255 (js_mul (rgb_g enhanced) boost),
            rgb_b = min 255 (js_mul (rgb_b enhanced) boost)\<rparr>)"

definition applyDynamicFilter :: "RGB \<Rightarrow> string" where
  "applyDynamicFilter rgb =
     (let brightness = js_div (js_add (js_add (rgb_r rgb) (rgb_g rgb)) (rgb_b rgb)) (js_mul 3 255);
          contrast = (if lit (1 / 2) < brightness then lit (13 / 10) else lit (8 / 10))
      in rgbToString
           \<lparr>rgb_r = min 255 (max 0 (js_add (js_mul (js_sub (rgb_r rgb) 128) contrast) 128)),
            rgb_g = min 255 (max 0 (js_add (js_mul (js_sub (rgb_g rgb) 128) contrast) 128)),
            rgb_b = min 255 (max 0 (js_add (js_mul (js_sub (rgb_b rgb) 128) contrast) 128))\<rparr>)"

definition applyContrastFilter :: "RGB \<Rightarrow> string" where
  "applyContrastFilter rgb =
     (let threshold = 128;
          contrastBoost = lit (14 / 10)
      in rgbToString
           \<lparr>rgb_r = (if threshold < rgb_r rgb then min 255 (js_mul (rgb_r rgb) contrastBoost)
                     else js_div (rgb_r rgb) contrastBoost),
            rgb_g = (if threshold < rgb_g rgb then min 255 (js_mul (rgb_g rgb) contrastBoost)
                     else js_div (rgb_g rgb) contrastBoost),
            rgb_b = (if threshold < rgb_b rgb then min 255 (js_mul (rgb_b rgb) contrastBoost)
                     else js_div (rgb_b rgb) contrastBoost)\<rparr>)"

definition applyNeonFilter :: "RGB \<Rightarrow> string" where
  "applyNeonFilter rgb =
     (let mx = max (max (rgb_r rgb) (rgb_g rgb)) (rgb_b rgb);
          neonBoost = lit (15 / 10);
          secondaryBoost = lit (6 / 10)
      in rgbToString
           \<lparr>rgb_r = (if rgb_r rgb = mx then min 255 (js_mul (rgb_r rgb) neonBoost)
                     else js_mul (rgb_r rgb) secondaryBoost),
            rgb_g = (if rgb_g rgb = mx then min 255 (js_mul (rgb_g rgb) neonBoost)
                     else js_mul (rgb_g rgb) secondaryBoost),
            rgb_b = (if rgb_b rgb = mx then min 255 (js_mul (rgb_b rgb) neonBoost)
                     else js_mul (rgb_b rgb) secondaryBoost)\<rparr>)"

definition applyGradientFlow :: "RGB \<Rightarrow> RGB option \<Rightarrow> string" where
  "applyGradientFlow rgb prev =
     (case prev of
        None \<Rightarrow> rgbToString (enhanceVibrance rgb)
      | Some p \<Rightarrow>
          (let flowFactor = lit (3 / 10);
               enhanced = enhanceVibrance rgb;
               enhancedPrev = enhanceVibrance p
           in rgbToString
                \<lparr>rgb_r = js_add (js_mul (rgb_r enhanced) (js_sub 1 flowFactor))
                                (js_mul (rgb_r enhancedPrev) flowFactor),
                 rgb_g = js_add (js_mul (rgb_g enhanced) (js_sub 1 flowFactor))
                                (js_mul (rgb_g enhancedPrev) flowFactor),
                 rgb_b = js_add (js_mul (rgb_b enhanced) (js_sub 1 flowFactor))
                                (js_mul (rgb_b enhancedPrev) flowFactor)\<rparr>))"

text \<open>The optional argument \<^verbatim>\<open>previousColor\<close> is absent (\<open>None\<close>) or a string; the
  test \<^verbatim>\<open>previousColor ? ... : undefined\<close> also takes the empty string for
  absent.\<close>

definition applyColorFilter :: "string \<Rightarrow> FilterType \<Rightarrow> string option \<Rightarrow> string" where
  "applyColorFilter color flt previousColor =
     (let rgb = parseRGB color;
          prev = (case previousColor of
                    None \<Rightarrow> None
                  | Some p \<Rightarrow> if p = [] then None else Some (parseRGB p))
      in case flt of
           vibrant \<Rightarrow> applyVibrantFilter rgb
         | dynamic \<Rightarrow> applyDynamicFilter rgb
         | frame_based \<Rightarrow> color
         | contrast \<Rightarrow> applyContrastFilter rgb
         | neon \<Rightarrow> applyNeonFilter rgb
         | gradient_flow \<Rightarrow> applyGradientFlow rgb prev
         | Filter_none \<Rightarrow> color)"

section \<open>The hexagonal pattern generator (HexagonalBarcodeGenerator)\<close>

subsection \<open>The brightest pixel of a frame\<close>

text \<open>\<^verbatim>\<open>ImageData.data\<close> is a \<^verbatim>\<open>Uint8ClampedArray\<close> holding four bytes per pixel:
  red, green, blue and alpha. The loop \<^verbatim>\<open>for (i = 0; i < data.length; i += 4)\<close> visits
  the pixels in the order of the array, which is row-major from the top-left pixel.\<close>

type_synonym pixel = "8 word \<times> 8 word \<times> 8 word \<times> 8 word"

type_synonym ImageData = "pixel list"

definition byte :: "8 word \<Rightarrow> number" where
  "byte w = of_nat (unat w)"

record scan =
  maxBrightness :: number
  brightestR :: number
  brightestG :: number
  brightestB :: number

definition pixel_brightness :: "pixel \<Rightarrow> number" where
  "pixel_brightness p =
     (case p of (r, g, b, a) \<Rightarrow>
        js_add (js_add (js_mul (byte r) (lit (299 / 1000))) (js_mul (byte g) (lit (587 / 1000))))
               (js_mul (byte b) (lit (114 / 1000))))"

definition scan_pixel :: "scan \<Rightarrow> pixel \<Rightarrow> scan" where
  "scan_pixel s p =
     (case p of (r, g, b, a) \<Rightarrow>
        if maxBrightness s < pixel_brightness p
        then \<lparr>maxBrightness = pixel_brightness p,
              brightestR = byte r, brightestG = byte g, brightestB = byte b\<rparr>
        else s)"

definition getBrightestColor :: "ImageData \<Rightarrow> string" where
  "getBrightestColor data =
     (let s = foldl scan_pixel
                \<lparr>maxBrightness = 0, brightestR = 0, brightestG = 0, brightestB = 0\<rparr> data;
          maxChannel = max (max (brightestR s) (brightestG s)) (brightestB s);
          saturationBoost = lit (12 / 10);
          boosted = (if 0 < maxChannel
                     then \<lparr>rgb_r = min 255 (js_mul (brightestR s) saturationBoost),
                           rgb_g = min 255 (js_mul (brightestG s) saturationBoost),
                           rgb_b = min 255 (js_mul (brightestB s) saturationBoost)\<rparr>
                     else \<lparr>rgb_r = brightestR s, rgb_g = brightestG s, rgb_b = brightestB s\<rparr>)
      in rgb_string (Math_round (rgb_r boosted)) (Math_round (rgb_g boosted))
           (Math_round (rgb_b boosted)))"

subsection \<open>The effect and its environment\<close>

text \<open>
  The effect of the component closes over the property \<^verbatim>\<open>colorFilter\<close> and over
  the state variable \<^verbatim>\<open>colors\<close> as they were at the render that scheduled the
  effect; \<^verbatim>\<open>setColors\<close> changes neither of them for the run in progress.
\<close>

record closure =
  colorFilter :: FilterType
  colors :: "string list"

text \<open>
  What the run meets outside the component. The run is suspended at each
  \<^verbatim>\<open>await\<close>: suspension 0 waits for the metadata of the video, suspension
  \<open>k + 1\<close> for the seek of the cell with index \<open>k\<close>. JavaScript runs the cleanup of
  the effect, which sets the flag \<^verbatim>\<open>cancelled\<close>, only while the run is suspended;
  \<open>cancel_at\<close> names that suspension, if there is one. Every awaited seek is taken to
  settle, also one that is pending when the cleanup runs; \<open>frame_at k\<close> is the frame
  read back after the seek of cell \<open>k\<close>. The metadata either loads or fails.
\<close>

record video =
  duration :: number
  metadata_loads :: bool
  tempCtx_available :: bool
  frame_at :: "nat \<Rightarrow> ImageData"
  cancel_at :: "nat option"

datatype fill = FrameImage ImageData | FillStyle string

datatype event =
    SetProgress number
  | SetError string
  | SetColors "string list"
  | AwaitMetadata
  | CanvasCleared
  | ReadCancelled bool
  | SeekTo number
  | CleanupRan
  | DrawHexagon number number number fill

record run =
  cancelled :: bool
  hexIndex :: nat
  newColors :: "string list"
  trace :: "event list"

definition emit :: "event \<Rightarrow> run \<Rightarrow> run" where
  "emit e s = s\<lparr>trace := trace s @ [e]\<rparr>"

definition suspend :: "video \<Rightarrow> nat \<Rightarrow> run \<Rightarrow> run" where
  "suspend v k s = (if cancel_at v = Some k then emit CleanupRan (s\<lparr>cancelled := True\<rparr>) else s)"

subsection \<open>Geometry\<close>

definition width :: number where "width = 1000"

definition height :: number where "height = 600"

definition hexRadius :: number where "hexRadius = 40"

text \<open>\<^verbatim>\<open>Math.sqrt\<close> returns the double nearest to the square root.\<close>

definition hexHeight :: number where
  "hexHeight = js_mul hexRadius (rnd (sqrt 3))"

definition columns :: nat where
  "columns = nat \<lfloor>js_div width (js_mul hexRadius (lit (15 / 10)))\<rfloor>"

definition rows :: nat where
  "rows = nat \<lfloor>js_div height hexHeight\<rfloor>"

definition cell_x :: "nat \<Rightarrow> number" where
  "cell_x col = js_add (js_mul (js_mul (of_nat col) hexRadius) (lit (15 / 10))) hexRadius"

definition cell_y :: "nat \<Rightarrow> nat \<Rightarrow> number" where
  "cell_y row col =
     js_add (js_add (js_mul (of_nat row) hexHeight)
                    (js_div (js_mul (of_nat (col mod 2)) hexHeight) 2))
            hexRadius"

subsection \<open>drawHexagon\<close>

text \<open>The argument \<^verbatim>\<open>frameData\<close> is an \<^verbatim>\<open>ImageData\<close> or a string. The path,
  the clip and the border do not depend on it; the event records the centre, the size and
  what is drawn inside (the temporary canvas that carries a frame is taken to have a
  context). An index outside a JavaScript array reads \<^verbatim>\<open>undefined\<close>.\<close>

datatype frameData = Image ImageData | Str string

definition previous_argument :: "string list \<Rightarrow> nat \<Rightarrow> string option" where
  "previous_argument cs index =
     (if 0 < index then (if index - 1 < length cs then Some (cs ! (index - 1)) else None)
      else None)"

definition drawHexagon ::
  "closure \<Rightarrow> number \<Rightarrow> number \<Rightarrow> number \<Rightarrow> frameData \<Rightarrow> nat \<Rightarrow> event" where
  "drawHexagon cl x y sz fd index =
     (case fd of
        Image d \<Rightarrow>
          if colorFilter cl = frame_based then DrawHexagon x y sz (FrameImage d)
          else DrawHexagon x y sz
                 (FillStyle (applyColorFilter (getBrightestColor d) (colorFilter cl)
                    (previous_argument (colors cl) index)))
      | Str color \<Rightarrow>
          DrawHexagon x y sz
            (FillStyle (applyColorFilter color (colorFilter cl)
               (previous_argument (colors cl) index))))"

subsection \<open>generatePattern\<close>

text \<open>The effect calls \<^verbatim>\<open>generatePattern\<close> once it has a video address and the
  context of the canvas. \<open>cell\<close> is the body of the inner loop after the test of the
  flag: it seeks, is suspended until the seek settles, reads the frame back, draws the
  hexagon and reports the progress.\<close>

definition cell :: "closure \<Rightarrow> video \<Rightarrow> nat \<Rightarrow> nat \<Rightarrow> nat \<Rightarrow> run \<Rightarrow> run" where
  "cell cl v totalHexagons row col s =
     (let x = cell_x col;
          y = cell_y row col;
          s1 = suspend v (Suc (hexIndex s))
                 (emit (SeekTo (js_mul (js_div (of_nat (hexIndex s)) (of_nat totalHexagons))
                                       (duration v))) s);
          fd = frame_at v (hexIndex s1);
          s2 = (if colorFilter cl = frame_based
                then emit (drawHexagon cl x y hexRadius (Image fd) (hexIndex s1)) s1
                else emit (drawHexagon cl x y hexRadius (Str (getBrightestColor fd)) (hexIndex s1))
                       (s1\<lparr>newColors := newColors s1 @ [getBrightestColor fd]\<rparr>));
          s3 = s2\<lparr>hexIndex := Suc (hexIndex s2)\<rparr>
      in emit (SetProgress (js_mul (js_div (of_nat (hexIndex s3)) (of_nat totalHexagons)) 100)) s3)"

datatype outcome = Returned | Continues

function columns_loop ::
  "closure \<Rightarrow> video \<Rightarrow> nat \<Rightarrow> nat \<Rightarrow> nat \<Rightarrow> nat \<Rightarrow> run \<Rightarrow> outcome \<times> run" where
  "columns_loop cl v totalHexagons ncols row col s =
     (if col < ncols then
        (if cancelled s then (Returned, emit (ReadCancelled True) s)
         else columns_loop cl v totalHexagons ncols row (Suc col)
                (cell cl v totalHexagons row col (emit (ReadCancelled False) s)))
      else (Continues, s))"
  by pat_completeness auto
termination
  by (relation "measure (\<lambda>(cl, v, totalHexagons, ncols, row, col, s). ncols - col)") auto

function rows_loop ::
  "closure \<Rightarrow> video \<Rightarrow> nat \<Rightarrow> nat \<Rightarrow> nat \<Rightarrow> nat \<Rightarrow> run \<Rightarrow> outcome \<times> run" where
  "rows_loop cl v totalHexagons nrows ncols row s =
     (if row < nrows then
        (case columns_loop cl v totalHexagons ncols row 0 s of
           (Returned, s') \<Rightarrow> (Returned, s')
         | (Continues, s') \<Rightarrow> rows_loop cl v totalHexagons nrows ncols (Suc row) s')
      else (Continues, s))"
  by pat_completeness auto
termination
  by (relation "measure (\<lambda>(cl, v, totalHexagons, nrows, ncols, row, s). nrows - row)") auto

declare columns_loop.simps [simp del] rows_loop.simps [simp del]

text \<open>A rejected metadata promise carries an event, not an \<^verbatim>\<open>Error\<close>, so the
  handler reports the fixed message; the missing context throws an \<^verbatim>\<open>Error\<close> with
  its own message.\<close>

definition generatePattern :: "closure \<Rightarrow> video \<Rightarrow> run" where
  "generatePattern cl v =
     (let s0 = emit (SetColors []) (emit (SetError []) (emit (SetProgress 0)
                 \<lparr>cancelled = False, hexIndex = 0, newColors = [], trace = []\<rparr>));
          s1 = suspend v 0 (emit AwaitMetadata s0)
      in if \<not> metadata_loads v then emit (SetError ''Error processing video'') s1
         else if \<not> tempCtx_available v
              then emit (SetError ''Temp canvas context not available'') (emit CanvasCleared s1)
              else (case rows_loop cl v (rows * columns) rows columns 0 (emit CanvasCleared s1) of
                      (Returned, s) \<Rightarrow> s
                    | (Continues, s) \<Rightarrow>
                        if colorFilter cl \<noteq> frame_based then emit (SetColors (newColors s)) s
                        else s))"

section \<open>Notions used in the statements and the examples\<close>

text \<open>A string matches the pattern of \<open>parseRGB\<close> when it contains, anywhere,
  \<^verbatim>\<open>rgb(\<close>, digits, a comma, optional white space, digits, a comma, optional white
  space, digits and \<^verbatim>\<open>)\<close>.\<close>

definition matches_pattern :: "string \<Rightarrow> bool" where
  "matches_pattern s \<longleftrightarrow>
     (\<exists>pre d1 w1 d2 w2 d3 post.
        s = pre @ ''rgb('' @ d1 @ '','' @ w1 @ d2 @ '','' @ w2 @ d3 @ '')'' @ post
        \<and> d1 \<noteq> [] \<and> d2 \<noteq> [] \<and> d3 \<noteq> []
        \<and> (\<forall>c \<in> set (d1 @ d2 @ d3). isDigit c) \<and> (\<forall>c \<in> set (w1 @ w2). isSpace c))"

text \<open>A colour whose three channels lie between 0 and 255.\<close>

definition in_gamut :: "RGB \<Rightarrow> bool" where
  "in_gamut c \<longleftrightarrow>
     0 \<le> rgb_r c \<and> rgb_r c \<le> 255 \<and> 0 \<le> rgb_g c \<and> rgb_g c \<le> 255 \<and> 0 \<le> rgb_b c \<and> rgb_b c \<le> 255"

text \<open>A colour string as \<open>rgbToString\<close> prints it, \<^verbatim>\<open>rgb(x, y, z)\<close>, whose three
  channels are integers between 0 and 255.\<close>

definition gamut_string :: "string \<Rightarrow> bool" where
  "gamut_string s \<longleftrightarrow>
     (\<exists>x y z. 0 \<le> x \<and> x \<le> 255 \<and> 0 \<le> y \<and> y \<le> 255 \<and> 0 \<le> z \<and> z \<le> 255
        \<and> s = rgb_string x y z)"

text \<open>What the contrast filter does to one channel, before rounding.\<close>

definition contrast_channel :: "number \<Rightarrow> number" where
  "contrast_channel c =
     (if 128 < c then min 255 (js_mul c (lit (14 / 10))) else js_div c (lit (14 / 10)))"

text \<open>The maximum of the three channels, as \<open>enhanceVibrance\<close> and
  \<open>applyNeonFilter\<close> compute it.\<close>

definition maxChannel :: "RGB \<Rightarrow> number" where
  "maxChannel c = max (max (rgb_r c) (rgb_g c)) (rgb_b c)"

text \<open>The channels that the neon filter prints, before rounding.\<close>

definition neon_channels :: "RGB \<Rightarrow> RGB" where
  "neon_channels c =
     \<lparr>rgb_r = (if rgb_r c = maxChannel c then min 255 (js_mul (rgb_r c) (lit (15 / 10)))
               else js_mul (rgb_r c) (lit (6 / 10))),
      rgb_g = (if rgb_g c = maxChannel c then min 255 (js_mul (rgb_g c) (lit (15 / 10)))
               else js_mul (rgb_g c) (lit (6 / 10))),
      rgb_b = (if rgb_b c = maxChannel c then min 255 (js_mul (rgb_b c) (lit (15 / 10)))
               else js_mul (rgb_b c) (lit (6 / 10)))\<rparr>"

text \<open>A candidate colour, with channels that are doubles, whose saturation push is
  exactly (200, 50, 50).\<close>

definition example4_candidate :: RGB where
  "example4_candidate =
     \<lparr>rgb_r = 5412980321358769 / 35184372088832,
      rgb_g = 5026338869833143 / 70368744177664,
      rgb_b = 5026338869833143 / 70368744177664\<rparr>"

text \<open>The colour of a pixel, and the state of the scan of \<open>getBrightestColor\<close> seen as a
  colour.\<close>

definition pixel_rgb :: "pixel \<Rightarrow> RGB" where
  "pixel_rgb p = (case p of (r, g, b, a) \<Rightarrow> \<lparr>rgb_r = byte r, rgb_g = byte g, rgb_b = byte b\<rparr>)"

definition black :: RGB where
  "black = \<lparr>rgb_r = 0, rgb_g = 0, rgb_b = 0\<rparr>"

text \<open>The boost of the extractor: a colour other than black has each channel multiplied by
  1.2 and clamped to 255.\<close>

definition saturation_boost :: "RGB \<Rightarrow> RGB" where
  "saturation_boost c =
     (if c = black then c
      else \<lparr>rgb_r = min 255 (js_mul (rgb_r c) (lit (12 / 10))),
            rgb_g = min 255 (js_mul (rgb_g c) (lit (12 / 10))),
            rgb_b = min 255 (js_mul (rgb_b c) (lit (12 / 10)))\<rparr>)"

definition scan_rgb :: "scan \<Rightarrow> RGB" where
  "scan_rgb s = \<lparr>rgb_r = brightestR s, rgb_g = brightestG s, rgb_b = brightestB s\<rparr>"

definition scan_start :: scan where
  "scan_start = \<lparr>maxBrightness = 0, brightestR = 0, brightestG = 0, brightestB = 0\<rparr>"

text \<open>A frame of two pixels.\<close>

definition two_pixels :: ImageData where
  "two_pixels = [(10, 20, 30, 255), (200, 100, 50, 255)]"

text \<open>The luminance Y = 0.299 R + 0.587 G + 0.114 B of a pixel as a real number, with no
  rounding, and a frame of two pixels of the same luminance 9.69.\<close>

definition luminance :: "pixel \<Rightarrow> real" where
  "luminance p =
     (case p of (r, g, b, a) \<Rightarrow> 299 / 1000 * byte r + 587 / 1000 * byte g + 114 / 1000 * byte b)"

definition tied_pixels :: ImageData where
  "tied_pixels = [(0, 0, 85, 255), (7, 11, 10, 255)]"

text \<open>The events of the cell with index \<open>i\<close> of a grid of \<open>ncols\<close> columns, when the
  flag is not yet set at its check: the check, the seek, the cleanup if it runs during this
  seek, the hexagon at column \<open>i mod ncols\<close> of row \<open>i div ncols\<close>, the progress.\<close>

definition cell_events :: "closure \<Rightarrow> video \<Rightarrow> nat \<Rightarrow> nat \<Rightarrow> nat \<Rightarrow> event list" where
  "cell_events cl v totalHexagons ncols i =
     [ReadCancelled False,
      SeekTo (js_mul (js_div (of_nat i) (of_nat totalHexagons)) (duration v))]
     @ (if cancel_at v = Some (Suc i) then [CleanupRan] else [])
     @ [drawHexagon cl (cell_x (i mod ncols)) (cell_y (i div ncols) (i mod ncols)) hexRadius
          (if colorFilter cl = frame_based then Image (frame_at v i)
           else Str (getBrightestColor (frame_at v i))) i,
        SetProgress (js_mul (js_div (of_nat (Suc i)) (of_nat totalHexagons)) 100)]"

text \<open>The number of cells that a run over \<open>n\<close> cells processes: the check of cell \<open>k\<close>
  reads the flag set when the cleanup ran during a suspension up to \<open>k\<close>.\<close>

definition cells_done :: "video \<Rightarrow> nat \<Rightarrow> nat" where
  "cells_done v n = (case cancel_at v of None \<Rightarrow> n | Some k \<Rightarrow> min k n)"

text \<open>The two nested loops as one loop over the index: the cell with index \<open>i\<close> is
  taken at row \<open>i div ncols\<close> and column \<open>i mod ncols\<close>.\<close>

fun flat_loop :: "closure \<Rightarrow> video \<Rightarrow> nat \<Rightarrow> nat \<Rightarrow> nat \<Rightarrow> run \<Rightarrow> outcome \<times> run" where
  "flat_loop cl v totalHexagons ncols 0 s = (Continues, s)"
| "flat_loop cl v totalHexagons ncols (Suc n) s =
     (if cancelled s then (Returned, emit (ReadCancelled True) s)
      else flat_loop cl v totalHexagons ncols n
             (cell cl v totalHexagons (hexIndex s div ncols) (hexIndex s mod ncols)
                (emit (ReadCancelled False) s)))"

text \<open>The colours extracted from the frames of the cells \<open>i\<close> to \<open>i + n - 1\<close>, as
  \<^verbatim>\<open>newColors\<close> collects them.\<close>

definition raw_colors :: "closure \<Rightarrow> video \<Rightarrow> nat \<Rightarrow> nat \<Rightarrow> string list" where
  "raw_colors cl v i n =
     (if colorFilter cl = frame_based then []
      else map (\<lambda>k. getBrightestColor (frame_at v k)) [i..<i + n])"

text \<open>The number of cells processed out of \<open>n\<close>, counted from the cell \<open>i\<close>.\<close>

definition done_from :: "video \<Rightarrow> nat \<Rightarrow> nat \<Rightarrow> nat" where
  "done_from v i n = (case cancel_at v of None \<Rightarrow> n | Some k \<Rightarrow> min (k - i) n)"

text \<open>The hexagons of a trace, in the order in which they are drawn, and the kinds of
  events: the suspensions of the run, the checks of the flag, and the outputs, which are the
  progress updates and the hexagons.\<close>

definition hexagons :: "event list \<Rightarrow> event list" where
  "hexagons tr = filter (\<lambda>e. case e of DrawHexagon x y sz f \<Rightarrow> True | _ \<Rightarrow> False) tr"




text \<open>What is drawn inside the hexagon of the cell \<open>i\<close>: the frame itself, or the colour
  that \<open>applyColorFilter\<close> returns for the colour extracted from the frame, with the entry
  \<open>i - 1\<close> of the captured \<^verbatim>\<open>colors\<close> as previous colour where there is one.\<close>

definition cell_fill :: "closure \<Rightarrow> video \<Rightarrow> nat \<Rightarrow> fill" where
  "cell_fill cl v i =
     (if colorFilter cl = frame_based then FrameImage (frame_at v i)
      else FillStyle (applyColorFilter (getBrightestColor (frame_at v i)) (colorFilter cl)
             (if 0 < i \<and> i \<le> length (colors cl) then Some (colors cl ! (i - 1)) else None)))"

text \<open>The state of a run that has started and emitted nothing.\<close>

definition run_start :: run where
  "run_start = \<lparr>cancelled = False, hexIndex = 0, newColors = [], trace = []\<rparr>"

text \<open>The closure of the effect at the first render: the state \<^verbatim>\<open>colors\<close> is still
  empty. A video with a white first frame and black frames after it, all seeks settling.\<close>

definition first_run :: closure where
  "first_run = \<lparr>colorFilter = gradient_flow, colors = []\<rparr>"

definition two_frames :: video where
  "two_frames =
     \<lparr>duration = 10, metadata_loads = True, tempCtx_available = True,
      frame_at = (\<lambda>i. if i = 0 then [(255, 255, 255, 255)] else [(0, 0, 0, 255)]),
      cancel_at = None\<rparr>"







section \<open>Evaluation\<close>

text \<open>The equations that evaluate the model on a concrete input.\<close>

lemmas num_eval = rnd_def quantize_def expo_def exp_up.simps exp_down.simps round_even_def
  js_add_def js_sub_def js_mul_def js_div_def lit_def Math_round_def

lemmas str_eval = isDigit_def isSpace_def digit_char_def digit_val_def show_nat.simps
  number_toString_def decimal_def parseInt_def match_digits_def match_here_def parseRGB_def
  rgb_string_def rgbToString_def

lemmas filter_eval = enhanceVibrance_def applyVibrantFilter_def applyDynamicFilter_def
  applyContrastFilter_def applyNeonFilter_def applyGradientFlow_def applyColorFilter_def

section \<open>Rounding to a double: order and exactness\<close>

lemma round_even_bounds: "\<lfloor>q\<rfloor> \<le> round_even q \<and> round_even q \<le> \<lfloor>q\<rfloor> + 1"
  by (simp add: round_even_def)

lemma round_even_of_int: "round_even (of_int n) = n"
  by (simp add: round_even_def)

lemma round_even_mono:
  assumes "q \<le> q'"
  shows "round_even q \<le> round_even q'"
proof (cases "\<lfloor>q\<rfloor> = \<lfloor>q'\<rfloor>")
  case True
  then show ?thesis using assms by (auto simp add: round_even_def)
next
  case False
  then have "\<lfloor>q\<rfloor> + 1 \<le> \<lfloor>q'\<rfloor>" using floor_mono [OF assms] by linarith
  then show ?thesis
    using round_even_bounds [of q] round_even_bounds [of q'] by linarith
qed

lemma exp_up_bounds: "1 \<le> x \<Longrightarrow> 2 ^ exp_up x \<le> x \<and> x < 2 * 2 ^ exp_up x"
proof (induction x rule: exp_up.induct)
  case (1 x)
  show ?case
  proof (cases "x < 2")
    case True
    then show ?thesis using "1.prems" by (simp add: exp_up.simps)
  next
    case False
    then have "1 \<le> x / 2" by simp
    from "1.IH" [OF False this] have "2 ^ exp_up (x / 2) \<le> x / 2 \<and> x / 2 < 2 * 2 ^ exp_up (x / 2)" .
    moreover have "exp_up x = Suc (exp_up (x / 2))" using False by (subst exp_up.simps) simp
    ultimately show ?thesis by simp
  qed
qed

lemma exp_down_bounds:
  "0 < x \<Longrightarrow> x < 1 \<Longrightarrow> 1 \<le> 2 ^ exp_down x * x \<and> 2 ^ exp_down x * x < 2"
proof (induction x rule: exp_down.induct)
  case (1 x)
  have step: "exp_down x = Suc (exp_down (2 * x))"
    using "1.prems" by (subst exp_down.simps) simp
  show ?case
  proof (cases "2 * x < 1")
    case True
    have "\<not> (x \<le> 0 \<or> 1 \<le> x)" using "1.prems" by simp
    from "1.IH" [OF this] True "1.prems"
    have "1 \<le> 2 ^ exp_down (2 * x) * (2 * x) \<and> 2 ^ exp_down (2 * x) * (2 * x) < 2" by simp
    then show ?thesis by (simp add: step)
  next
    case False
    then have "exp_down (2 * x) = 0" by (subst exp_down.simps) simp
    then show ?thesis using False "1.prems" by (simp add: step)
  qed
qed

lemma expo_bounds:
  assumes "0 < x"
  shows "2 powi expo x \<le> x \<and> x < 2 powi (expo x + 1)"
proof (cases "1 \<le> x")
  case True
  then show ?thesis using exp_up_bounds [OF True]
    by (simp add: expo_def power_int_add)
next
  case False
  then have x1: "x < 1" by simp
  define k where "k = exp_down x"
  have b: "1 \<le> 2 ^ k * x" "2 ^ k * x < 2"
    using exp_down_bounds [OF assms x1] by (simp_all add: k_def)
  have e: "expo x = - int k" using False by (simp add: expo_def k_def)
  have p: "(2::real) powi (- int k) = 1 / 2 ^ k" by (simp add: power_int_minus divide_inverse)
  have "1 / 2 ^ k \<le> x" using b(1) by (simp add: field_simps)
  moreover have "x < 2 * (1 / 2 ^ k)" using b(2) by (simp add: field_simps)
  moreover have "(2::real) powi (- int k + 1) = 2 * (1 / 2 ^ k)"
    using power_int_add [of "2::real" "- int k" 1] by (simp only: p) simp
  ultimately show ?thesis by (simp only: e p)
qed

lemma expo_unique:
  assumes "0 < x" "2 powi e \<le> x" "x < 2 powi (e + 1)"
  shows "expo x = e"
proof (rule ccontr)
  assume ne: "expo x \<noteq> e"
  note b = expo_bounds [OF assms(1)]
  show False
  proof (cases "expo x < e")
    case True
    then have "(2::real) powi (expo x + 1) \<le> 2 powi e"
      by (intro power_int_increasing) auto
    then show False using b assms by linarith
  next
    case False
    then have "e + 1 \<le> expo x" using ne by simp
    then have "(2::real) powi (e + 1) \<le> 2 powi expo x"
      by (intro power_int_increasing) auto
    then show False using b assms by linarith
  qed
qed

lemma expo_mono:
  assumes "0 < x" "x \<le> y"
  shows "expo x \<le> expo y"
proof (rule ccontr)
  assume "\<not> expo x \<le> expo y"
  then have "expo y + 1 \<le> expo x" by simp
  then have "(2::real) powi (expo y + 1) \<le> 2 powi expo x"
    by (intro power_int_increasing) auto
  moreover have "0 < y" using assms by simp
  ultimately show False using expo_bounds [OF assms(1)] expo_bounds [OF \<open>0 < y\<close>] assms(2)
    by linarith
qed

lemma quantize_bounds:
  assumes "0 < a"
  shows "2 powi expo a \<le> quantize a (expo a) \<and> quantize a (expo a) \<le> 2 powi (expo a + 1)"
proof -
  define e where "e = expo a"
  define u :: real where "u = 2 powi (e - 52)"
  have u: "0 < u" by (simp add: u_def)
  have lo: "2 powi e = u * 2 ^ 52" and hi: "2 powi (e + 1) = u * 2 ^ 53"
    by (simp_all add: u_def power_int_diff power_int_add)
  from expo_bounds [OF assms] have "u * 2 ^ 52 \<le> a" "a < u * 2 ^ 53"
    by (simp_all add: e_def [symmetric] lo hi)
  then have "2 ^ 52 \<le> a / u" "a / u \<le> 2 ^ 53" using u by (simp_all add: field_simps)
  then have "round_even (2 ^ 52) \<le> round_even (a / u)" "round_even (a / u) \<le> round_even (2 ^ 53)"
    by (simp_all only: round_even_mono)
  moreover have "round_even (2 ^ 52) = 2 ^ 52" "round_even (2 ^ 53) = 2 ^ 53"
    using round_even_of_int [of "2 ^ 52"] round_even_of_int [of "2 ^ 53"] by simp_all
  ultimately have "(2 ^ 52 :: real) \<le> of_int (round_even (a / u))"
    "of_int (round_even (a / u)) \<le> (2 ^ 53 :: real)"
    by (metis of_int_le_iff of_int_numeral of_int_power)+
  then have "u * 2 ^ 52 \<le> u * of_int (round_even (a / u))"
    "u * of_int (round_even (a / u)) \<le> u * 2 ^ 53"
    using u by simp_all
  then show ?thesis
    unfolding quantize_def e_def [symmetric] u_def [symmetric] lo hi by simp
qed

lemma quantize_mono:
  assumes "0 < a" "a \<le> b"
  shows "quantize a (expo a) \<le> quantize b (expo b)"
proof (cases "expo a = expo b")
  case True
  define u :: real where "u = 2 powi (expo b - 52)"
  have u: "0 < u" by (simp add: u_def)
  have "a / u \<le> b / u" using assms u by (simp add: divide_right_mono)
  then have "round_even (a / u) \<le> round_even (b / u)" by (rule round_even_mono)
  then have "u * of_int (round_even (a / u)) \<le> u * of_int (round_even (b / u))"
    using u by simp
  then show ?thesis by (simp add: quantize_def True u_def)
next
  case False
  then have "expo a + 1 \<le> expo b" using expo_mono [OF assms] by simp
  then have "(2::real) powi (expo a + 1) \<le> 2 powi expo b"
    by (intro power_int_increasing) auto
  moreover have "0 < b" using assms by simp
  ultimately show ?thesis
    using quantize_bounds [OF assms(1)] quantize_bounds [OF \<open>0 < b\<close>] by linarith
qed

lemma rnd_pos_eq: "0 < x \<Longrightarrow> rnd x = quantize x (expo x)"
  by (simp add: rnd_def)

lemma rnd_minus: "rnd (- x) = - rnd x"
  by (simp add: rnd_def sgn_minus)

lemma rnd_0: "rnd 0 = 0"
  by (simp add: rnd_def)

lemma rnd_pos: "0 < x \<Longrightarrow> 0 < rnd x"
proof -
  assume x: "0 < x"
  have "0 < (2::real) powi expo x" by simp
  with quantize_bounds [OF x] have "0 < quantize x (expo x)" by linarith
  then show ?thesis by (simp only: rnd_pos_eq [OF x])
qed

lemma rnd_nonneg: "0 \<le> x \<Longrightarrow> 0 \<le> rnd x"
  using rnd_pos [of x] by (cases "x = 0") (simp_all add: rnd_0 less_eq_real_def)

lemma rnd_mono:
  assumes "x \<le> y"
  shows "rnd x \<le> rnd y"
proof -
  consider "0 < x" | "x \<le> 0" "0 \<le> y" | "y < 0" by linarith
  then show ?thesis
  proof cases
    case 1
    then have "0 < y" using assms by simp
    then show ?thesis using quantize_mono [OF 1 assms] by (simp add: rnd_pos_eq 1)
  next
    case 2
    have "rnd (- x) \<ge> 0" using 2 by (intro rnd_nonneg) simp
    then have "rnd x \<le> 0" by (simp add: rnd_minus)
    then show ?thesis using rnd_nonneg [OF 2(2)] by linarith
  next
    case 3
    then have "0 < - y" "- y \<le> - x" using assms by simp_all
    then have "quantize (- y) (expo (- y)) \<le> quantize (- x) (expo (- x))"
      by (rule quantize_mono)
    moreover have "0 < - x" using 3 assms by simp
    ultimately have "rnd (- y) \<le> rnd (- x)"
      using \<open>0 < - y\<close> by (simp add: rnd_pos_eq)
    then show ?thesis by (simp add: rnd_minus)
  qed
qed

lemma rnd_exact_pos:
  assumes "0 < n" "n < 2 ^ 53"
  shows "rnd (of_int n * 2 powi k) = of_int n * 2 powi k"
proof -
  define a :: real where "a = of_int n * 2 powi k"
  have a: "0 < a" using assms(1) by (simp add: a_def)
  define e where "e = expo a"
  have lo: "2 powi e \<le> a" using expo_bounds [OF a] by (simp add: e_def)
  have "of_int n < (2 ^ 53 :: real)" using assms(2)
    by (metis of_int_less_iff of_int_numeral of_int_power)
  then have "a < 2 ^ 53 * 2 powi k" by (simp add: a_def)
  also have "\<dots> = 2 powi (53 + k)" by (simp add: power_int_add)
  finally have "(2::real) powi e < 2 powi (53 + k)" using lo by linarith
  then have "e < 53 + k"
    using power_int_increasing [of "53 + k" e "2::real"] by (cases "e < 53 + k") auto
  then have m: "0 \<le> k - e + 52" by simp
  define m where "m = nat (k - e + 52)"
  have "a / 2 powi (e - 52) = of_int n * 2 powi (k - (e - 52))"
    by (simp add: a_def power_int_diff)
  also have "k - (e - 52) = int m" using m by (simp add: m_def)
  finally have q: "a / 2 powi (e - 52) = of_int (n * 2 ^ m)" by simp
  have "quantize a e = 2 powi (e - 52) * (a / 2 powi (e - 52))"
    unfolding quantize_def q round_even_of_int ..
  also have "\<dots> = a" by simp
  finally show ?thesis using a by (simp add: rnd_pos_eq e_def a_def [symmetric])
qed

lemma rnd_exact:
  assumes "\<bar>n\<bar> < 2 ^ 53"
  shows "rnd (of_int n * 2 powi k) = of_int n * 2 powi k"
proof -
  consider "0 < n" | "n = 0" | "n < 0" by linarith
  then show ?thesis
  proof cases
    case 1
    then show ?thesis using assms by (intro rnd_exact_pos) simp_all
  next
    case 2
    then show ?thesis by (simp add: rnd_0)
  next
    case 3
    then have "rnd (of_int (- n) * 2 powi k) = of_int (- n) * 2 powi k"
      using assms by (intro rnd_exact_pos) simp_all
    then show ?thesis using rnd_minus [of "of_int n * 2 powi k"] by simp
  qed
qed

lemma rnd_of_int: "\<bar>n\<bar> < 2 ^ 53 \<Longrightarrow> rnd (of_int n) = of_int n"
  using rnd_exact [of n 0] by (simp only: power_int_0_right mult_1_right)

lemma rnd_of_nat: "n < 2 ^ 53 \<Longrightarrow> rnd (of_nat n) = of_nat n"
proof -
  assume "n < 2 ^ 53"
  then have "int n < 2 ^ 53" by (metis of_nat_less_iff of_nat_numeral of_nat_power)
  then have "\<bar>int n\<bar> < 2 ^ 53" by (simp only: abs_of_nat)
  from rnd_of_int [OF this] show ?thesis by (simp only: of_int_of_nat_eq)
qed

lemma rnd_half: "\<bar>n\<bar> < 2 ^ 53 \<Longrightarrow> rnd (of_int n / 2) = of_int n / 2"
  using rnd_exact [of n "- 1"] by (simp only: power_int_minus1_right divide_inverse)

lemma rnd_le_int: "x \<le> of_int n \<Longrightarrow> \<bar>n\<bar> < 2 ^ 53 \<Longrightarrow> rnd x \<le> of_int n"
  using rnd_mono [of x "of_int n"] rnd_of_int [of n] by (simp only:)

lemma rnd_ge_int: "of_int n \<le> x \<Longrightarrow> \<bar>n\<bar> < 2 ^ 53 \<Longrightarrow> of_int n \<le> rnd x"
  using rnd_mono [of "of_int n" x] rnd_of_int [of n] by (simp only:)

section \<open>Printing and matching\<close>

subsection \<open>Digits\<close>

lemma digit_char_isDigit: "d < 10 \<Longrightarrow> isDigit (digit_char d)"
proof -
  assume "d < 10"
  then have "d \<in> {0, 1, 2, 3, 4, 5, 6, 7, 8, 9}" by auto
  then show ?thesis by (auto simp add: isDigit_def digit_char_def)
qed

lemma digit_val_digit_char: "d < 10 \<Longrightarrow> digit_val (digit_char d) = d"
proof -
  assume "d < 10"
  then have "d \<in> {0, 1, 2, 3, 4, 5, 6, 7, 8, 9}" by auto
  then show ?thesis by (auto simp add: digit_val_def digit_char_def)
qed

lemma show_nat_digits: "show_nat n \<noteq> [] \<and> (\<forall>c \<in> set (show_nat n). isDigit c)"
proof (induction n rule: show_nat.induct)
  case (1 n)
  show ?case
  proof (cases "n < 10")
    case True
    then show ?thesis by (subst (1 2) show_nat.simps) (simp add: digit_char_isDigit)
  next
    case False
    then show ?thesis using "1.IH" by (subst (1 2) show_nat.simps) (simp add: digit_char_isDigit)
  qed
qed

lemma decimal_snoc: "decimal (ds @ [c]) = 10 * decimal ds + digit_val c"
  by (simp add: decimal_def)

lemma decimal_show_nat: "decimal (show_nat n) = n"
proof (induction n rule: show_nat.induct)
  case (1 n)
  show ?case
  proof (cases "n < 10")
    case True
    then show ?thesis by (subst show_nat.simps) (simp add: decimal_def digit_val_digit_char)
  next
    case False
    then have "decimal (show_nat n) = 10 * decimal (show_nat (n div 10)) + digit_val (digit_char (n mod 10))"
      by (subst show_nat.simps) (simp add: decimal_snoc)
    then show ?thesis using "1.IH" [OF False] by (simp add: digit_val_digit_char)
  qed
qed

subsection \<open>Matching\<close>

lemma match_lit_append: "match_lit p (p @ s) = Some s"
  by (induction p) simp_all

lemma match_lit_Some: "match_lit p s = Some t \<Longrightarrow> s = p @ t"
  by (induction p s rule: match_lit.induct) (auto split: if_splits)

lemma takeWhile_stop:
  "(\<forall>x \<in> set xs. P x) \<Longrightarrow> (ys = [] \<or> \<not> P (hd ys)) \<Longrightarrow> takeWhile P (xs @ ys) = xs"
  by (induction xs) (auto simp add: takeWhile_eq_Nil_iff)

lemma dropWhile_stop:
  "(\<forall>x \<in> set xs. P x) \<Longrightarrow> (ys = [] \<or> \<not> P (hd ys)) \<Longrightarrow> dropWhile P (xs @ ys) = ys"
  by (induction xs) (auto simp add: dropWhile_eq_self_iff)

lemma match_digits_append:
  assumes "ds \<noteq> []" "\<forall>c \<in> set ds. isDigit c" "s = [] \<or> \<not> isDigit (hd s)"
  shows "match_digits (ds @ s) = Some (ds, s)"
  using assms takeWhile_stop [of ds isDigit s] dropWhile_stop [of ds isDigit s]
  by (simp add: match_digits_def)

lemma match_digits_Some:
  assumes "match_digits s = Some (ds, t)"
  shows "s = ds @ t \<and> ds \<noteq> [] \<and> (\<forall>c \<in> set ds. isDigit c)"
  using assms by (auto simp add: match_digits_def split: if_splits dest: set_takeWhileD)

lemma digit_not_space: "isDigit c \<Longrightarrow> \<not> isSpace c"
  by (auto simp add: isDigit_def isSpace_def)

lemma hd_digit_not_space: "ds \<noteq> [] \<Longrightarrow> \<forall>c \<in> set ds. isDigit c \<Longrightarrow> \<not> isSpace (hd (ds @ s))"
  by (cases ds) (simp_all add: digit_not_space)

lemma match_here_decomposed:
  assumes d: "d1 \<noteq> []" "d2 \<noteq> []" "d3 \<noteq> []"
    "\<forall>c \<in> set d1. isDigit c" "\<forall>c \<in> set d2. isDigit c" "\<forall>c \<in> set d3. isDigit c"
    and w: "\<forall>c \<in> set w1. isSpace c" "\<forall>c \<in> set w2. isSpace c"
  shows "match_here (''rgb('' @ d1 @ '','' @ w1 @ d2 @ '','' @ w2 @ d3 @ '')'' @ post) = Some (d1, d2, d3)"
proof -
  have comma: "\<not> isDigit CHR '',''" and paren: "\<not> isDigit CHR '')''" by (simp_all add: isDigit_def)
  have m1: "match_digits (d1 @ '','' @ w1 @ d2 @ '','' @ w2 @ d3 @ '')'' @ post)
      = Some (d1, '','' @ w1 @ d2 @ '','' @ w2 @ d3 @ '')'' @ post)"
    using d comma by (intro match_digits_append) simp_all
  have s1: "dropWhile isSpace (w1 @ d2 @ '','' @ w2 @ d3 @ '')'' @ post) = d2 @ '','' @ w2 @ d3 @ '')'' @ post"
    using w(1) hd_digit_not_space [OF d(2) d(5)] by (intro dropWhile_stop) simp_all
  have m2: "match_digits (d2 @ '','' @ w2 @ d3 @ '')'' @ post) = Some (d2, '','' @ w2 @ d3 @ '')'' @ post)"
    using d comma by (intro match_digits_append) simp_all
  have s2: "dropWhile isSpace (w2 @ d3 @ '')'' @ post) = d3 @ '')'' @ post"
    using w(2) hd_digit_not_space [OF d(3) d(6)] by (intro dropWhile_stop) simp_all
  have m3: "match_digits (d3 @ '')'' @ post) = Some (d3, '')'' @ post)"
    using d paren by (intro match_digits_append) simp_all
  have l1: "match_lit ''rgb('' (''rgb('' @ t) = Some t" for t by (rule match_lit_append)
  have l2: "match_lit '','' ('','' @ t) = Some t" for t by (rule match_lit_append)
  have l3: "match_lit '')'' ('')'' @ t) = Some t" for t by (rule match_lit_append)
  show ?thesis
    unfolding match_here_def by (simp only: l1 l2 l3 m1 m2 m3 s1 s2 option.case prod.case)
qed

lemma match_here_Some:
  assumes "match_here s = Some (m1, m2, m3)"
  shows "\<exists>w1 w2 post. s = ''rgb('' @ m1 @ '','' @ w1 @ m2 @ '','' @ w2 @ m3 @ '')'' @ post
      \<and> m1 \<noteq> [] \<and> m2 \<noteq> [] \<and> m3 \<noteq> []
      \<and> (\<forall>c \<in> set (m1 @ m2 @ m3). isDigit c) \<and> (\<forall>c \<in> set (w1 @ w2). isSpace c)"
proof -
  from assms obtain s1 s2 s3 s4 s5 s6 s7 where
    a: "match_lit ''rgb('' s = Some s1" "match_digits s1 = Some (m1, s2)"
       "match_lit '','' s2 = Some s3" "match_digits (dropWhile isSpace s3) = Some (m2, s4)"
       "match_lit '','' s4 = Some s5" "match_digits (dropWhile isSpace s5) = Some (m3, s6)"
       "match_lit '')'' s6 = Some s7"
    by (auto simp add: match_here_def split: option.splits prod.splits)
  define w1 where "w1 = takeWhile isSpace s3"
  define w2 where "w2 = takeWhile isSpace s5"
  have s3: "s3 = w1 @ dropWhile isSpace s3" and s5: "s5 = w2 @ dropWhile isSpace s5"
    by (simp_all add: w1_def w2_def)
  have w: "\<forall>c \<in> set (w1 @ w2). isSpace c"
    by (auto simp add: w1_def w2_def dest: set_takeWhileD)
  note b = match_lit_Some [OF a(1)] match_digits_Some [OF a(2)] match_lit_Some [OF a(3)]
    match_digits_Some [OF a(4)] match_lit_Some [OF a(5)] match_digits_Some [OF a(6)]
    match_lit_Some [OF a(7)]
  have "s = ''rgb('' @ m1 @ '','' @ w1 @ m2 @ '','' @ w2 @ m3 @ '')'' @ s7"
    using b s3 s5 by (metis append.assoc)
  moreover have "m1 \<noteq> [] \<and> m2 \<noteq> [] \<and> m3 \<noteq> []" using b by simp
  moreover have "\<forall>c \<in> set (m1 @ m2 @ m3). isDigit c" using b by auto
  ultimately have "s = ''rgb('' @ m1 @ '','' @ w1 @ m2 @ '','' @ w2 @ m3 @ '')'' @ s7
      \<and> m1 \<noteq> [] \<and> m2 \<noteq> [] \<and> m3 \<noteq> []
      \<and> (\<forall>c \<in> set (m1 @ m2 @ m3). isDigit c) \<and> (\<forall>c \<in> set (w1 @ w2). isSpace c)"
    using w by blast
  then show ?thesis by blast
qed

lemma match_rgb_append: "match_here t = Some m \<Longrightarrow> match_rgb (pre @ t) \<noteq> None"
proof (induction pre)
  case Nil
  then show ?case by (cases t) simp_all
next
  case (Cons c pre)
  then show ?case by (simp split: option.splits)
qed

lemma match_rgb_Some: "match_rgb s = Some m \<Longrightarrow> \<exists>pre t. s = pre @ t \<and> match_here t = Some m"
proof (induction s)
  case Nil
  then show ?case by simp
next
  case (Cons c s)
  show ?case
  proof (cases "match_here (c # s)")
    case None
    with Cons obtain pre t where "s = pre @ t" "match_here t = Some m" by auto
    then have "c # s = (c # pre) @ t \<and> match_here t = Some m" by simp
    then show ?thesis by blast
  next
    case (Some m')
    with Cons.prems have "match_here (c # s) = Some m" by simp
    then have "c # s = [] @ (c # s) \<and> match_here (c # s) = Some m" by simp
    then show ?thesis by blast
  qed
qed


lemma matches_pattern_iff: "matches_pattern s \<longleftrightarrow> match_rgb s \<noteq> None"
proof
  assume "matches_pattern s"
  then obtain pre d1 w1 d2 w2 d3 post where
    s: "s = pre @ ''rgb('' @ d1 @ '','' @ w1 @ d2 @ '','' @ w2 @ d3 @ '')'' @ post"
    and d: "d1 \<noteq> []" "d2 \<noteq> []" "d3 \<noteq> []" "\<forall>c \<in> set (d1 @ d2 @ d3). isDigit c"
    and w: "\<forall>c \<in> set (w1 @ w2). isSpace c"
    unfolding matches_pattern_def by blast
  have "match_here (''rgb('' @ d1 @ '','' @ w1 @ d2 @ '','' @ w2 @ d3 @ '')'' @ post) = Some (d1, d2, d3)"
    using d w by (intro match_here_decomposed) auto
  from match_rgb_append [OF this] show "match_rgb s \<noteq> None" unfolding s .
next
  assume "match_rgb s \<noteq> None"
  then obtain m1 m2 m3 where "match_rgb s = Some (m1, m2, m3)" by auto
  from match_rgb_Some [OF this] obtain pre t where
    t: "s = pre @ t" "match_here t = Some (m1, m2, m3)" by blast
  from match_here_Some [OF t(2)] t(1) show "matches_pattern s"
    unfolding matches_pattern_def by blast
qed

lemma match_rgb_rgb_string:
  assumes "0 \<le> x" "0 \<le> y" "0 \<le> z"
  shows "match_rgb (rgb_string x y z) = Some (show_nat (nat x), show_nat (nat y), show_nat (nat z))"
proof -
  let ?a = "show_nat (nat x)" and ?b = "show_nat (nat y)" and ?c = "show_nat (nat z)"
  have "match_here (''rgb('' @ ?a @ '','' @ '' '' @ ?b @ '','' @ '' '' @ ?c @ '')'' @ [])
      = Some (?a, ?b, ?c)"
    using show_nat_digits by (intro match_here_decomposed) (simp_all add: isSpace_def)
  moreover have "rgb_string x y z = ''rgb('' @ ?a @ '','' @ '' '' @ ?b @ '','' @ '' '' @ ?c @ '')'' @ []"
    using assms by (simp add: rgb_string_def number_toString_def)
  ultimately have "match_here (rgb_string x y z) = Some (?a, ?b, ?c)" by simp
  moreover have "rgb_string x y z = CHR ''r'' # tl (rgb_string x y z)"
    by (simp add: rgb_string_def)
  ultimately show ?thesis by (metis match_rgb.simps(2) option.simps(5))
qed

lemma parseRGB_rgb_string:
  assumes "0 \<le> x" "x < 2 ^ 53" "0 \<le> y" "y < 2 ^ 53" "0 \<le> z" "z < 2 ^ 53"
  shows "parseRGB (rgb_string x y z) = \<lparr>rgb_r = of_int x, rgb_g = of_int y, rgb_b = of_int z\<rparr>"
proof -
  have "rnd (of_nat (nat i)) = of_int i" if "0 \<le> i" "i < 2 ^ 53" for i :: int
  proof -
    have "nat i < 2 ^ 53" using that by (simp add: nat_less_iff)
    from rnd_of_nat [OF this] that(1) show ?thesis by simp
  qed
  then show ?thesis
    using assms by (simp add: parseRGB_def match_rgb_rgb_string parseInt_def decimal_show_nat)
qed

section \<open>Channels stay between 0 and 255\<close>

lemma lit_nonneg: "0 \<le> x \<Longrightarrow> 0 \<le> lit x"
  by (simp add: lit_def rnd_nonneg)

lemma js_mul_nonneg: "0 \<le> x \<Longrightarrow> 0 \<le> y \<Longrightarrow> 0 \<le> js_mul x y"
  by (simp add: js_mul_def rnd_nonneg)

lemma js_div_nonneg: "0 \<le> x \<Longrightarrow> 0 \<le> y \<Longrightarrow> 0 \<le> js_div x y"
  by (simp add: js_div_def rnd_nonneg)

lemma js_add_nonneg: "0 \<le> x \<Longrightarrow> 0 \<le> y \<Longrightarrow> 0 \<le> js_add x y"
  by (simp add: js_add_def rnd_nonneg)

lemma rnd_255: "rnd 255 = 255"
  using rnd_of_int [of 255] by simp

lemma rnd_1: "rnd 1 = 1"
  using rnd_of_int [of 1] by simp

lemma rnd_le_255: "x \<le> 255 \<Longrightarrow> rnd x \<le> 255"
  using rnd_mono [of x 255] by (simp add: rnd_255)

lemma Math_round_gamut:
  assumes "0 \<le> x" "x \<le> 255"
  shows "0 \<le> Math_round x \<and> Math_round x \<le> 255"
proof -
  have "0 \<le> \<lfloor>x + 1 / 2\<rfloor>" using assms(1) by (simp add: zero_le_floor)
  moreover have "\<lfloor>x + 1 / 2\<rfloor> \<le> 255" using assms(2) by (simp add: floor_le_iff)
  ultimately show ?thesis by (simp add: Math_round_def)
qed

lemma in_gamut_enhanceVibrance:
  assumes "in_gamut c"
  shows "in_gamut (enhanceVibrance c)"
  using assms
  by (simp add: enhanceVibrance_def Let_def in_gamut_def js_mul_nonneg lit_nonneg)

lemma lit_14_ge_1: "1 \<le> lit (7 / 5)"
  using rnd_mono [of 1 "7 / 5"] by (simp add: lit_def rnd_1)

lemma lit_6_le_1: "lit (3 / 5) \<le> 1"
  using rnd_mono [of "3 / 5" 1] by (simp add: lit_def rnd_1)

lemma flow_255: "rnd (rnd (255 * rnd (1 - rnd (3 / 10))) + rnd (255 * rnd (3 / 10))) = 255"
  by (simp add: num_eval split del: if_split)

lemma flow_bound:
  assumes "0 \<le> e" "e \<le> 255" "0 \<le> p" "p \<le> 255"
  shows "0 \<le> js_add (js_mul e (js_sub 1 (lit (3 / 10)))) (js_mul p (lit (3 / 10)))
       \<and> js_add (js_mul e (js_sub 1 (lit (3 / 10)))) (js_mul p (lit (3 / 10))) \<le> 255"
proof -
  define f where "f = rnd (3 / 10)"
  define g where "g = rnd (1 - f)"
  have f: "0 \<le> f" "f \<le> 1"
    using rnd_nonneg [of "3 / 10"] rnd_mono [of "3 / 10" 1] by (simp_all add: f_def rnd_1)
  then have g: "0 \<le> g" using rnd_nonneg [of "1 - f"] by (simp add: g_def)
  have "e * g \<le> 255 * g" "p * f \<le> 255 * f"
    using assms f g by (simp_all add: mult_right_mono)
  then have "rnd (e * g) + rnd (p * f) \<le> rnd (255 * g) + rnd (255 * f)"
    using rnd_mono [of "e * g" "255 * g"] rnd_mono [of "p * f" "255 * f"] by linarith
  then have "rnd (rnd (e * g) + rnd (p * f)) \<le> rnd (rnd (255 * g) + rnd (255 * f))"
    by (rule rnd_mono)
  also have "\<dots> = 255" unfolding g_def f_def by (rule flow_255)
  finally have up: "rnd (rnd (e * g) + rnd (p * f)) \<le> 255" .
  have "0 \<le> rnd (e * g)" "0 \<le> rnd (p * f)"
    using assms f g by (simp_all add: rnd_nonneg)
  then have "0 \<le> rnd (rnd (e * g) + rnd (p * f))" by (simp add: rnd_nonneg)
  with up show ?thesis
    by (simp add: js_add_def js_mul_def js_sub_def lit_def f_def g_def)
qed

lemma gamut_string_rgbToString:
  assumes "in_gamut c"
  shows "gamut_string (rgbToString c)"
proof -
  have "0 \<le> Math_round (rgb_r c) \<and> Math_round (rgb_r c) \<le> 255"
    "0 \<le> Math_round (rgb_g c) \<and> Math_round (rgb_g c) \<le> 255"
    "0 \<le> Math_round (rgb_b c) \<and> Math_round (rgb_b c) \<le> 255"
    using assms by (simp_all add: in_gamut_def Math_round_gamut)
  then show ?thesis unfolding gamut_string_def rgbToString_def by blast
qed

lemma gamut_string_parse:
  assumes "gamut_string s"
  shows "in_gamut (parseRGB s)"
proof -
  from assms obtain x y z where b: "0 \<le> x" "x \<le> 255" "0 \<le> y" "y \<le> 255" "0 \<le> z" "z \<le> 255"
    and s: "s = rgb_string x y z" unfolding gamut_string_def by blast
  have "parseRGB (rgb_string x y z) = \<lparr>rgb_r = of_int x, rgb_g = of_int y, rgb_b = of_int z\<rparr>"
    using b by (intro parseRGB_rgb_string) simp_all
  then show ?thesis using b by (simp add: s in_gamut_def)
qed

lemma gamut_string_vibrant: "in_gamut c \<Longrightarrow> gamut_string (applyVibrantFilter c)"
proof -
  assume "in_gamut c"
  then have e: "in_gamut (enhanceVibrance c)" by (rule in_gamut_enhanceVibrance)
  have "0 \<le> min 255 (js_mul x (if P then lit (14 / 10) else lit (11 / 10)))" if "0 \<le> x" for x P
    using that by (simp add: js_mul_nonneg lit_nonneg)
  then show ?thesis
    unfolding applyVibrantFilter_def Let_def using e
    by (intro gamut_string_rgbToString) (simp add: in_gamut_def)
qed

lemma gamut_string_dynamic: "gamut_string (applyDynamicFilter c)"
  unfolding applyDynamicFilter_def Let_def
  by (intro gamut_string_rgbToString) (simp add: in_gamut_def)

lemma contrast_channel_gamut:
  assumes "0 \<le> x" "x \<le> 255"
  shows "0 \<le> contrast_channel x \<and> contrast_channel x \<le> 255"
proof (cases "128 < x")
  case True
  then show ?thesis using assms by (simp add: contrast_channel_def js_mul_nonneg lit_nonneg)
next
  case False
  define k where "k = lit (7 / 5)"
  have k: "1 \<le> k" unfolding k_def by (rule lit_14_ge_1)
  have "x * 1 \<le> x * k" using assms(1) k by (intro mult_left_mono) simp_all
  then have "x / k \<le> x" using k by (simp add: divide_le_eq)
  then have "rnd (x / k) \<le> 255" using assms(2) by (intro rnd_le_255) simp
  moreover have "0 \<le> rnd (x / k)" using assms(1) k by (intro rnd_nonneg) simp
  ultimately show ?thesis using False by (simp add: contrast_channel_def js_div_def k_def)
qed

lemma applyContrastFilter_channels:
  "applyContrastFilter c =
     rgbToString \<lparr>rgb_r = contrast_channel (rgb_r c), rgb_g = contrast_channel (rgb_g c),
                  rgb_b = contrast_channel (rgb_b c)\<rparr>"
  by (simp add: applyContrastFilter_def contrast_channel_def Let_def)

lemma gamut_string_contrast: "in_gamut c \<Longrightarrow> gamut_string (applyContrastFilter c)"
  unfolding applyContrastFilter_channels
  by (intro gamut_string_rgbToString) (simp add: in_gamut_def contrast_channel_gamut)

lemma neon_secondary_gamut:
  assumes "0 \<le> x" "x \<le> 255"
  shows "0 \<le> js_mul x (lit (3 / 5)) \<and> js_mul x (lit (3 / 5)) \<le> 255"
proof -
  define k where "k = lit (3 / 5)"
  have s: "0 \<le> k" "k \<le> 1" unfolding k_def by (simp_all add: lit_nonneg lit_6_le_1)
  then have "x * k \<le> x * 1" using assms(1) by (intro mult_left_mono) simp_all
  then have "rnd (x * k) \<le> 255" using assms(2) by (intro rnd_le_255) simp
  moreover have "0 \<le> rnd (x * k)" using assms(1) s by (intro rnd_nonneg) simp
  ultimately show ?thesis by (simp add: js_mul_def k_def)
qed

lemma gamut_string_neon: "in_gamut c \<Longrightarrow> gamut_string (applyNeonFilter c)"
  unfolding applyNeonFilter_def Let_def
  by (intro gamut_string_rgbToString)
     (simp add: in_gamut_def neon_secondary_gamut js_mul_nonneg lit_nonneg)

lemma gamut_string_flow:
  assumes "in_gamut c" "\<forall>p. prev = Some p \<longrightarrow> in_gamut p"
  shows "gamut_string (applyGradientFlow c prev)"
proof (cases prev)
  case None
  then show ?thesis using assms(1)
    by (simp add: applyGradientFlow_def gamut_string_rgbToString in_gamut_enhanceVibrance)
next
  case (Some p)
  then have "in_gamut (enhanceVibrance p)" using assms(2) by (simp add: in_gamut_enhanceVibrance)
  moreover have "in_gamut (enhanceVibrance c)" using assms(1) by (rule in_gamut_enhanceVibrance)
  ultimately show ?thesis
    unfolding applyGradientFlow_def Let_def Some option.case
    by (intro gamut_string_rgbToString) (simp add: in_gamut_def flow_bound)
qed

lemma gamut_string_10_200_10: "gamut_string ''rgb(10, 200, 10)''"
proof -
  have e: "''rgb(10, 200, 10)'' = rgb_string 10 200 10"
    by (simp add: str_eval split del: if_split)
  show ?thesis unfolding gamut_string_def
  proof (intro exI conjI)
    show "''rgb(10, 200, 10)'' = rgb_string 10 200 10" by (rule e)
  qed simp_all
qed

lemma parse_10_200_10:
  "parseRGB ''rgb(10, 200, 10)'' = \<lparr>rgb_r = 10, rgb_g = 200, rgb_b = 10\<rparr>"
  by (simp add: num_eval str_eval split del: if_split)

lemma parse_100_100_100:
  "parseRGB ''rgb(100, 100, 100)'' = \<lparr>rgb_r = 100, rgb_g = 100, rgb_b = 100\<rparr>"
  by (simp add: num_eval str_eval split del: if_split)

section \<open>Properties of the filter pipeline\<close>

text \<open>
  C8. For every filter kind except gradient-flow, the result of \<open>applyColorFilter\<close>
  depends on the candidate colour alone: any two values of the optional previous-colour
  argument, absent included, give the same output. As \<open>applyColorFilter\<close> is a
  function, equal inputs give equal outputs.
\<close>

theorem applyColorFilter_ignores_previous:
  assumes "flt \<noteq> gradient_flow"
  shows "applyColorFilter color flt prev1 = applyColorFilter color flt prev2"
  using assms by (cases flt) (simp_all add: applyColorFilter_def Let_def)

theorem applyColorFilter_ignores_previous_witness:
  "neon \<noteq> gradient_flow \<and>
   applyColorFilter ''rgb(10, 200, 10)'' neon None =
   applyColorFilter ''rgb(10, 200, 10)'' neon (Some ''rgb(1, 2, 3)'')"
  using applyColorFilter_ignores_previous [of neon "''rgb(10, 200, 10)''" None "Some ''rgb(1, 2, 3)''"]
  by simp

text \<open>
  C6. For every input colour whose three channels, as the filter reads them with
  \<open>parseRGB\<close>, lie in [0, 255] and, for gradient-flow, every previous colour whose channels
  lie in [0, 255]: the output of each of the five filters that compute a colour (vibrant,
  dynamic, contrast, neon, gradient-flow) is a string \<^verbatim>\<open>rgb(x, y, z)\<close> whose three
  channels are integers in [0, 255]; the two other kinds (none, frame-based) return the input
  colour itself; and so, for every filter kind, an input that is a string
  \<^verbatim>\<open>rgb(x, y, z)\<close> with channels in [0, 255] gives an output that is one.
\<close>

theorem filter_output_in_gamut:
  assumes "in_gamut (parseRGB color)"
    and "\<forall>p. flt = gradient_flow \<and> previousColor = Some p \<longrightarrow> in_gamut (parseRGB p)"
  shows "(flt \<noteq> Filter_none \<and> flt \<noteq> frame_based \<longrightarrow>
            (\<exists>x y z. 0 \<le> x \<and> x \<le> 255 \<and> 0 \<le> y \<and> y \<le> 255 \<and> 0 \<le> z \<and> z \<le> 255
               \<and> applyColorFilter color flt previousColor = rgb_string x y z))
       \<and> (flt = Filter_none \<or> flt = frame_based \<longrightarrow>
            applyColorFilter color flt previousColor = color)
       \<and> (gamut_string color \<longrightarrow> gamut_string (applyColorFilter color flt previousColor))"
proof -
  have computed: "gamut_string (applyColorFilter color flt previousColor)"
    if "flt \<noteq> Filter_none" "flt \<noteq> frame_based"
  proof (cases flt)
    case gradient_flow
    have "\<forall>p. (case previousColor of None \<Rightarrow> None
                | Some q \<Rightarrow> if q = [] then None else Some (parseRGB q)) = Some p \<longrightarrow> in_gamut p"
      using assms(2) gradient_flow by (auto split: option.splits if_splits)
    from gamut_string_flow [OF assms(1) this] show ?thesis
      by (simp add: applyColorFilter_def gradient_flow)
  next
    case vibrant
    from gamut_string_vibrant [OF assms(1)] show ?thesis
      by (simp add: applyColorFilter_def vibrant)
  next
    case dynamic
    from gamut_string_dynamic [of "parseRGB color"] show ?thesis
      by (simp add: applyColorFilter_def dynamic)
  next
    case contrast
    from gamut_string_contrast [OF assms(1)] show ?thesis
      by (simp add: applyColorFilter_def contrast)
  next
    case neon
    from gamut_string_neon [OF assms(1)] show ?thesis
      by (simp add: applyColorFilter_def neon)
  qed (use that in simp_all)
  have same: "applyColorFilter color flt previousColor = color"
    if "flt = Filter_none \<or> flt = frame_based"
    using that by (auto simp add: applyColorFilter_def)
  have "gamut_string (applyColorFilter color flt previousColor)" if "gamut_string color"
    using computed same that by (cases "flt = Filter_none \<or> flt = frame_based") auto
  with computed same show ?thesis unfolding gamut_string_def by blast
qed

theorem filter_output_in_gamut_witness:
  "in_gamut (parseRGB ''rgb(10, 200, 10)'')
   \<and> in_gamut (parseRGB ''rgb(100, 100, 100)'')
   \<and> (\<exists>x y z. 0 \<le> x \<and> x \<le> 255 \<and> 0 \<le> y \<and> y \<le> 255 \<and> 0 \<le> z \<and> z \<le> 255
         \<and> applyColorFilter ''rgb(10, 200, 10)'' gradient_flow (Some ''rgb(100, 100, 100)'')
             = rgb_string x y z)
   \<and> applyColorFilter ''rgb(10, 200, 10)'' Filter_none None = ''rgb(10, 200, 10)''
   \<and> gamut_string ''rgb(10, 200, 10)''
   \<and> gamut_string (applyColorFilter ''rgb(10, 200, 10)'' Filter_none None)"
proof -
  have a: "in_gamut (parseRGB ''rgb(10, 200, 10)'')"
    by (simp add: parse_10_200_10 in_gamut_def)
  have b: "in_gamut (parseRGB ''rgb(100, 100, 100)'')"
    by (simp add: parse_100_100_100 in_gamut_def)
  then have c: "\<forall>p. gradient_flow = gradient_flow \<and> Some ''rgb(100, 100, 100)'' = Some p
                  \<longrightarrow> in_gamut (parseRGB p)"
    by auto
  have d: "\<forall>p. Filter_none = gradient_flow \<and> None = Some p \<longrightarrow> in_gamut (parseRGB p)"
    by simp
  from filter_output_in_gamut [OF a c]
  have e: "\<exists>x y z. 0 \<le> x \<and> x \<le> 255 \<and> 0 \<le> y \<and> y \<le> 255 \<and> 0 \<le> z \<and> z \<le> 255
         \<and> applyColorFilter ''rgb(10, 200, 10)'' gradient_flow (Some ''rgb(100, 100, 100)'')
             = rgb_string x y z"
    by simp
  from filter_output_in_gamut [OF a d] gamut_string_10_200_10
  have f: "applyColorFilter ''rgb(10, 200, 10)'' Filter_none None = ''rgb(10, 200, 10)''
      \<and> gamut_string (applyColorFilter ''rgb(10, 200, 10)'' Filter_none None)"
    by simp
  from a b e f gamut_string_10_200_10 show ?thesis by blast
qed

lemma contrast_200_50_10:
  "applyContrastFilter \<lparr>rgb_r = 200, rgb_g = 50, rgb_b = 10\<rparr> = ''rgb(255, 36, 7)''"
  by (simp add: num_eval str_eval applyContrastFilter_def split del: if_split)

lemma parse_200_50_10:
  "parseRGB ''rgb(200, 50, 10)'' = \<lparr>rgb_r = 200, rgb_g = 50, rgb_b = 10\<rparr>"
  by (simp add: num_eval str_eval split del: if_split)

text \<open>
  C7. The contrast filter transforms each channel on its own: a channel above 128 is
  multiplied by 1.4 and clamped to 255, a channel at or below 128 is divided by 1.4
  (\<open>contrast_channel\<close>), and the result is rounded. On the input RGB(200, 50, 10) the
  output is RGB(255, 36, 7).
\<close>

theorem contrast_per_channel:
  "applyContrastFilter c =
     rgb_string (Math_round (contrast_channel (rgb_r c))) (Math_round (contrast_channel (rgb_g c)))
       (Math_round (contrast_channel (rgb_b c)))
   \<and> applyColorFilter ''rgb(200, 50, 10)'' contrast previousColor = ''rgb(255, 36, 7)''"
proof
  show "applyContrastFilter c =
     rgb_string (Math_round (contrast_channel (rgb_r c))) (Math_round (contrast_channel (rgb_g c)))
       (Math_round (contrast_channel (rgb_b c)))"
    by (simp add: applyContrastFilter_channels rgbToString_def)
  show "applyColorFilter ''rgb(200, 50, 10)'' contrast previousColor = ''rgb(255, 36, 7)''"
    by (simp only: applyColorFilter_def Let_def FilterType.case parse_200_50_10 contrast_200_50_10)
qed

lemma parse_black: "parseRGB ''rgb(0, 0, 0)'' = \<lparr>rgb_r = 0, rgb_g = 0, rgb_b = 0\<rparr>"
  by (simp add: num_eval str_eval split del: if_split)

text \<open>
  C9. For every input string that does not match the pattern, \<open>parseRGB\<close> yields
  RGB(0, 0, 0), so a filter other than the two that pass the string through returns on a
  malformed string what it returns on black; no error is signalled.
\<close>

theorem malformed_color_is_black:
  assumes "\<not> matches_pattern color"
  shows "parseRGB color = \<lparr>rgb_r = 0, rgb_g = 0, rgb_b = 0\<rparr>
    \<and> (flt \<noteq> Filter_none \<longrightarrow> flt \<noteq> frame_based \<longrightarrow>
         applyColorFilter color flt previousColor
           = applyColorFilter ''rgb(0, 0, 0)'' flt previousColor)"
proof -
  have "match_rgb color = None" using assms matches_pattern_iff [of color] by blast
  then have black: "parseRGB color = \<lparr>rgb_r = 0, rgb_g = 0, rgb_b = 0\<rparr>"
    by (simp add: parseRGB_def)
  then have "parseRGB color = parseRGB ''rgb(0, 0, 0)''" by (simp only: parse_black)
  then have "flt \<noteq> Filter_none \<longrightarrow> flt \<noteq> frame_based \<longrightarrow>
      applyColorFilter color flt previousColor = applyColorFilter ''rgb(0, 0, 0)'' flt previousColor"
    by (cases flt) (simp_all add: applyColorFilter_def Let_def)
  with black show ?thesis by simp
qed

lemma hex_color_no_match: "match_rgb ''#ff0000'' = None"
  by (simp add: match_here_def)

theorem malformed_color_is_black_witness:
  "\<not> matches_pattern ''#ff0000''
   \<and> parseRGB ''#ff0000'' = \<lparr>rgb_r = 0, rgb_g = 0, rgb_b = 0\<rparr>
   \<and> applyColorFilter ''#ff0000'' neon None = applyColorFilter ''rgb(0, 0, 0)'' neon None"
proof -
  have a: "\<not> matches_pattern ''#ff0000''"
    by (simp only: matches_pattern_iff hex_color_no_match) simp
  from a malformed_color_is_black [OF a, of neon None] show ?thesis by (simp only:) simp
qed

lemma lit_15: "lit (3 / 2) = 3 / 2"
  using rnd_half [of 3] by (simp add: lit_def)

lemma enhanceVibrance_max:
  "enhanceVibrance c =
     (if maxChannel c = 0 then c
      else \<lparr>rgb_r = min 255 (js_mul (rgb_r c) (if rgb_r c = maxChannel c then lit (13 / 10) else lit (7 / 10))),
            rgb_g = min 255 (js_mul (rgb_g c) (if rgb_g c = maxChannel c then lit (13 / 10) else lit (7 / 10))),
            rgb_b = min 255 (js_mul (rgb_b c) (if rgb_b c = maxChannel c then lit (13 / 10) else lit (7 / 10)))\<rparr>)"
  unfolding enhanceVibrance_def maxChannel_def Let_def by (rule refl)

lemma applyNeonFilter_max:
  "applyNeonFilter c =
     rgbToString
       \<lparr>rgb_r = (if rgb_r c = maxChannel c then min 255 (js_mul (rgb_r c) (lit (15 / 10)))
                 else js_mul (rgb_r c) (lit (6 / 10))),
        rgb_g = (if rgb_g c = maxChannel c then min 255 (js_mul (rgb_g c) (lit (15 / 10)))
                 else js_mul (rgb_g c) (lit (6 / 10))),
        rgb_b = (if rgb_b c = maxChannel c then min 255 (js_mul (rgb_b c) (lit (15 / 10)))
                 else js_mul (rgb_b c) (lit (6 / 10)))\<rparr>"
  unfolding applyNeonFilter_def maxChannel_def Let_def by (rule refl)

lemma maxChannel_gray: "maxChannel \<lparr>rgb_r = v, rgb_g = v, rgb_b = v\<rparr> = v"
  by (simp add: maxChannel_def)

lemma vibrance_tied:
  "maxChannel c \<noteq> 0 \<longrightarrow>
      (rgb_r c = maxChannel c \<longrightarrow>
         rgb_r (enhanceVibrance c) = min 255 (js_mul (rgb_r c) (lit (13 / 10))))
    \<and> (rgb_g c = maxChannel c \<longrightarrow>
         rgb_g (enhanceVibrance c) = min 255 (js_mul (rgb_g c) (lit (13 / 10))))
    \<and> (rgb_b c = maxChannel c \<longrightarrow>
         rgb_b (enhanceVibrance c) = min 255 (js_mul (rgb_b c) (lit (13 / 10))))"
  by (simp add: enhanceVibrance_max)

lemma neon_tied:
  "applyNeonFilter c = rgbToString (neon_channels c)
   \<and> (rgb_r c = maxChannel c \<longrightarrow> rgb_r (neon_channels c) = min 255 (js_mul (rgb_r c) (3 / 2)))
   \<and> (rgb_g c = maxChannel c \<longrightarrow> rgb_g (neon_channels c) = min 255 (js_mul (rgb_g c) (3 / 2)))
   \<and> (rgb_b c = maxChannel c \<longrightarrow> rgb_b (neon_channels c) = min 255 (js_mul (rgb_b c) (3 / 2)))"
proof
  show "applyNeonFilter c = rgbToString (neon_channels c)"
    unfolding neon_channels_def by (rule applyNeonFilter_max)
  show "(rgb_r c = maxChannel c \<longrightarrow> rgb_r (neon_channels c) = min 255 (js_mul (rgb_r c) (3 / 2)))
   \<and> (rgb_g c = maxChannel c \<longrightarrow> rgb_g (neon_channels c) = min 255 (js_mul (rgb_g c) (3 / 2)))
   \<and> (rgb_b c = maxChannel c \<longrightarrow> rgb_b (neon_channels c) = min 255 (js_mul (rgb_b c) (3 / 2)))"
    by (simp add: neon_channels_def lit_15)
qed

lemma neon_gray:
  "0 < v \<longrightarrow>
     applyNeonFilter \<lparr>rgb_r = v, rgb_g = v, rgb_b = v\<rparr>
       = rgbToString \<lparr>rgb_r = min 255 (js_mul v (3 / 2)), rgb_g = min 255 (js_mul v (3 / 2)),
                      rgb_b = min 255 (js_mul v (3 / 2))\<rparr>"
  by (simp add: applyNeonFilter_max maxChannel_gray lit_15)

text \<open>
  C10. Every channel that equals the maximum is boosted, also when two or three channels
  are tied: the saturation push multiplies each of them by 1.3 and the neon filter by 1.5,
  both clamped to 255. In particular, on a gray input (v, v, v) with v > 0 the neon filter
  prints min(255, 1.5 v), rounded, in all three channels, and no channel is multiplied by
  0.6.
\<close>

theorem tied_channels_all_boosted:
  "(maxChannel c \<noteq> 0 \<longrightarrow>
      (rgb_r c = maxChannel c \<longrightarrow>
         rgb_r (enhanceVibrance c) = min 255 (js_mul (rgb_r c) (lit (13 / 10))))
    \<and> (rgb_g c = maxChannel c \<longrightarrow>
         rgb_g (enhanceVibrance c) = min 255 (js_mul (rgb_g c) (lit (13 / 10))))
    \<and> (rgb_b c = maxChannel c \<longrightarrow>
         rgb_b (enhanceVibrance c) = min 255 (js_mul (rgb_b c) (lit (13 / 10)))))
   \<and> (\<exists>c'. applyNeonFilter c = rgbToString c'
         \<and> (rgb_r c = maxChannel c \<longrightarrow> rgb_r c' = min 255 (js_mul (rgb_r c) (3 / 2)))
         \<and> (rgb_g c = maxChannel c \<longrightarrow> rgb_g c' = min 255 (js_mul (rgb_g c) (3 / 2)))
         \<and> (rgb_b c = maxChannel c \<longrightarrow> rgb_b c' = min 255 (js_mul (rgb_b c) (3 / 2))))
   \<and> (0 < v \<longrightarrow>
        applyNeonFilter \<lparr>rgb_r = v, rgb_g = v, rgb_b = v\<rparr>
          = rgbToString \<lparr>rgb_r = min 255 (js_mul v (3 / 2)), rgb_g = min 255 (js_mul v (3 / 2)),
                         rgb_b = min 255 (js_mul v (3 / 2))\<rparr>)"
  using vibrance_tied [of c] neon_tied [of c] neon_gray [of v] by blast

lemma max_200_200_10: "maxChannel \<lparr>rgb_r = 200, rgb_g = 200, rgb_b = 10\<rparr> = 200"
  by (simp add: maxChannel_def)

theorem tied_channels_all_boosted_witness:
  "maxChannel \<lparr>rgb_r = 200, rgb_g = 200, rgb_b = 10\<rparr> \<noteq> 0
   \<and> rgb_r \<lparr>rgb_r = 200, rgb_g = 200, rgb_b = 10\<rparr> = maxChannel \<lparr>rgb_r = 200, rgb_g = 200, rgb_b = 10\<rparr>
   \<and> rgb_g \<lparr>rgb_r = 200, rgb_g = 200, rgb_b = 10\<rparr> = maxChannel \<lparr>rgb_r = 200, rgb_g = 200, rgb_b = 10\<rparr>
   \<and> rgb_r (enhanceVibrance \<lparr>rgb_r = 200, rgb_g = 200, rgb_b = 10\<rparr>) = min 255 (js_mul 200 (lit (13 / 10)))
   \<and> rgb_g (enhanceVibrance \<lparr>rgb_r = 200, rgb_g = 200, rgb_b = 10\<rparr>) = min 255 (js_mul 200 (lit (13 / 10)))
   \<and> (0::real) < 100
   \<and> applyNeonFilter \<lparr>rgb_r = 100, rgb_g = 100, rgb_b = 100\<rparr>
       = rgbToString \<lparr>rgb_r = min 255 (js_mul 100 (3 / 2)), rgb_g = min 255 (js_mul 100 (3 / 2)),
                      rgb_b = min 255 (js_mul 100 (3 / 2))\<rparr>"
  using tied_channels_all_boosted [of "\<lparr>rgb_r = 200, rgb_g = 200, rgb_b = 10\<rparr>" 100]
  by (simp add: max_200_200_10)

lemma enhance_example4:
  "enhanceVibrance example4_candidate = \<lparr>rgb_r = 200, rgb_g = 50, rgb_b = 50\<rparr>"
  by (simp add: num_eval enhanceVibrance_def example4_candidate_def split del: if_split)

lemma enhance_gray_100:
  "enhanceVibrance \<lparr>rgb_r = 100, rgb_g = 100, rgb_b = 100\<rparr>
     = \<lparr>rgb_r = 130, rgb_g = 130, rgb_b = 130\<rparr>"
  by (simp add: num_eval enhanceVibrance_def split del: if_split)

lemma blend_example4:
  "rgbToString
     \<lparr>rgb_r = js_add (js_mul 200 (js_sub 1 (lit (3 / 10)))) (js_mul 130 (lit (3 / 10))),
      rgb_g = js_add (js_mul 50 (js_sub 1 (lit (3 / 10)))) (js_mul 130 (lit (3 / 10))),
      rgb_b = js_add (js_mul 50 (js_sub 1 (lit (3 / 10)))) (js_mul 130 (lit (3 / 10)))\<rparr>
   = ''rgb(179, 74, 74)''"
  by (simp add: num_eval str_eval split del: if_split)

lemma flow_on_pushed:
  assumes "enhanceVibrance c = \<lparr>rgb_r = 200, rgb_g = 50, rgb_b = 50\<rparr>"
  shows "applyGradientFlow c (Some \<lparr>rgb_r = 100, rgb_g = 100, rgb_b = 100\<rparr>) = ''rgb(179, 74, 74)''"
  unfolding applyGradientFlow_def Let_def option.case assms enhance_gray_100
  using blend_example4 by simp

lemma flow_red_after_gray:
  "applyColorFilter ''rgb(100, 0, 0)'' gradient_flow (Some ''rgb(100, 100, 100)'') = ''rgb(130, 39, 39)''"
  by (simp add: num_eval str_eval filter_eval split del: if_split)


text \<open>
  C2, as stated, fails. With the previous output RGB(100, 100, 100) and a candidate whose
  saturation push is RGB(200, 50, 50), the gradient-flow filter does not return
  RGB(170, 65, 65): it pushes the saturation of the previous colour as well, to
  RGB(130, 130, 130), before it blends. So it does on the strings that
  \<open>applyColorFilter\<close> takes: the candidate rgb(100, 0, 0), pushed to (130, 0, 0), gives
  rgb(130, 39, 39) after rgb(100, 100, 100), not the rgb(121, 30, 30) of a blend with the
  previous colour as it is.
\<close>

theorem gradient_flow_example4_counterexample:
  "enhanceVibrance example4_candidate = \<lparr>rgb_r = 200, rgb_g = 50, rgb_b = 50\<rparr>
   \<and> applyGradientFlow example4_candidate (Some \<lparr>rgb_r = 100, rgb_g = 100, rgb_b = 100\<rparr>)
       \<noteq> rgb_string 170 65 65
   \<and> applyColorFilter ''rgb(100, 0, 0)'' gradient_flow (Some ''rgb(100, 100, 100)'')
       = ''rgb(130, 39, 39)''"
proof -
  have "rgb_string 170 65 65 = ''rgb(170, 65, 65)''" by (simp add: str_eval)
  then show ?thesis
    using flow_on_pushed [OF enhance_example4] enhance_example4 flow_red_after_gray by simp
qed

text \<open>
  C2, amended. With the previous output RGB(100, 100, 100), whose saturation push is
  RGB(130, 130, 130), and a candidate whose saturation push is RGB(200, 50, 50), the
  gradient-flow filter returns RGB(179, 74, 74): each channel is 0.7 times the pushed
  candidate plus 0.3 times the pushed previous colour.
\<close>

theorem gradient_flow_example4:
  assumes "enhanceVibrance c = \<lparr>rgb_r = 200, rgb_g = 50, rgb_b = 50\<rparr>"
  shows "enhanceVibrance \<lparr>rgb_r = 100, rgb_g = 100, rgb_b = 100\<rparr>
           = \<lparr>rgb_r = 130, rgb_g = 130, rgb_b = 130\<rparr>
    \<and> applyGradientFlow c (Some \<lparr>rgb_r = 100, rgb_g = 100, rgb_b = 100\<rparr>) = rgb_string 179 74 74"
proof -
  have "rgb_string 179 74 74 = ''rgb(179, 74, 74)''" by (simp add: str_eval)
  then show ?thesis using flow_on_pushed [OF assms] enhance_gray_100 by simp
qed

theorem gradient_flow_example4_witness:
  "enhanceVibrance example4_candidate = \<lparr>rgb_r = 200, rgb_g = 50, rgb_b = 50\<rparr>
   \<and> applyGradientFlow example4_candidate (Some \<lparr>rgb_r = 100, rgb_g = 100, rgb_b = 100\<rparr>)
       = rgb_string 179 74 74"
  using gradient_flow_example4 [OF enhance_example4] enhance_example4 by simp

section \<open>The brightest pixel\<close>

lemma byte_nonneg: "0 \<le> byte w"
  by (simp only: byte_def of_nat_0_le_iff)

lemma lit_pos: "0 < x \<Longrightarrow> 0 < lit x"
  by (simp add: lit_def rnd_pos)

lemma js_mul_pos: "0 < x \<Longrightarrow> 0 < y \<Longrightarrow> 0 < js_mul x y"
  by (simp add: js_mul_def rnd_pos)

lemma js_add_pos: "0 \<le> x \<Longrightarrow> 0 \<le> y \<Longrightarrow> 0 < x \<or> 0 < y \<Longrightarrow> 0 < js_add x y"
  unfolding js_add_def by (intro rnd_pos) linarith

lemma pixel_brightness_nonneg: "0 \<le> pixel_brightness p"
  by (cases p) (simp add: pixel_brightness_def js_add_nonneg js_mul_nonneg byte_nonneg lit_nonneg)

lemma pixel_brightness_black:
  assumes "pixel_rgb p = black"
  shows "pixel_brightness p = 0"
proof -
  obtain r g b a where p: "p = (r, g, b, a)" by (cases p)
  with assms have "byte r = 0" "byte g = 0" "byte b = 0" by (simp_all add: pixel_rgb_def black_def)
  then show ?thesis
    by (simp add: p pixel_brightness_def js_mul_def js_add_def rnd_0)
qed

lemma pixel_brightness_pos:
  assumes "pixel_rgb p \<noteq> black"
  shows "0 < pixel_brightness p"
proof -
  obtain r g b a where p: "p = (r, g, b, a)" by (cases p)
  define x where "x = js_mul (byte r) (lit (299 / 1000))"
  define y where "y = js_mul (byte g) (lit (587 / 1000))"
  define z where "z = js_mul (byte b) (lit (114 / 1000))"
  have nn: "0 \<le> x" "0 \<le> y" "0 \<le> z"
    by (simp_all add: x_def y_def z_def js_mul_nonneg byte_nonneg lit_nonneg)
  have "byte r \<noteq> 0 \<or> byte g \<noteq> 0 \<or> byte b \<noteq> 0"
    using assms by (auto simp add: p pixel_rgb_def black_def)
  then have "0 < byte r \<or> 0 < byte g \<or> 0 < byte b"
    using byte_nonneg [of r] byte_nonneg [of g] byte_nonneg [of b] by linarith
  then have "0 < x \<or> 0 < y \<or> 0 < z"
    unfolding x_def y_def z_def by (auto intro!: js_mul_pos lit_pos)
  then have "0 < js_add (js_add x y) z"
    using nn js_add_nonneg [of x y] js_add_pos [of x y] js_add_pos [of "js_add x y" z]
    by (metis less_eq_real_def)
  then show ?thesis by (simp add: p pixel_brightness_def x_def y_def z_def)
qed

lemma scan_step:
  "scan_pixel s p =
     (if maxBrightness s < pixel_brightness p
      then \<lparr>maxBrightness = pixel_brightness p, brightestR = rgb_r (pixel_rgb p),
            brightestG = rgb_g (pixel_rgb p), brightestB = rgb_b (pixel_rgb p)\<rparr>
      else s)"
  by (cases p) (simp add: scan_pixel_def pixel_rgb_def)

lemma scan_invariant:
  fixes xs :: ImageData
  defines "s \<equiv> foldl scan_pixel scan_start xs"
  shows "(maxBrightness s = 0 \<and> scan_rgb s = black \<and> (\<forall>j<length xs. pixel_brightness (xs ! j) \<le> 0))
    \<or> (\<exists>k<length xs. 0 < pixel_brightness (xs ! k) \<and> scan_rgb s = pixel_rgb (xs ! k)
          \<and> maxBrightness s = pixel_brightness (xs ! k)
          \<and> (\<forall>j<length xs. pixel_brightness (xs ! j) \<le> pixel_brightness (xs ! k))
          \<and> (\<forall>j<k. pixel_brightness (xs ! j) < pixel_brightness (xs ! k)))"
  unfolding s_def
proof (induction xs rule: rev_induct)
  case Nil
  then show ?case by (simp add: scan_start_def scan_rgb_def black_def)
next
  case (snoc x xs)
  define t where "t = foldl scan_pixel scan_start xs"
  have all_le: "\<forall>j<length xs. pixel_brightness (xs ! j) \<le> maxBrightness t"
    using snoc.IH unfolding t_def [symmetric] by auto
  have nonneg: "0 \<le> maxBrightness t"
    using snoc.IH unfolding t_def [symmetric] by auto
  have fold: "foldl scan_pixel scan_start (xs @ [x]) = scan_pixel t x" by (simp add: t_def)
  show ?case
  proof (cases "maxBrightness t < pixel_brightness x")
    case True
    then have new: "scan_pixel t x = \<lparr>maxBrightness = pixel_brightness x, brightestR = rgb_r (pixel_rgb x),
            brightestG = rgb_g (pixel_rgb x), brightestB = rgb_b (pixel_rgb x)\<rparr>"
      by (simp add: scan_step)
    have "length xs < length (xs @ [x])" by simp
    moreover have "0 < pixel_brightness ((xs @ [x]) ! length xs)" using True nonneg by simp
    moreover have "scan_rgb (scan_pixel t x) = pixel_rgb ((xs @ [x]) ! length xs)"
      by (simp add: new scan_rgb_def)
    moreover have "maxBrightness (scan_pixel t x) = pixel_brightness ((xs @ [x]) ! length xs)"
      by (simp add: new)
    moreover have "\<forall>j<length xs. pixel_brightness ((xs @ [x]) ! j) < pixel_brightness ((xs @ [x]) ! length xs)"
      using all_le True by (auto simp add: nth_append)
    moreover from this have "\<forall>j<length (xs @ [x]). pixel_brightness ((xs @ [x]) ! j) \<le> pixel_brightness ((xs @ [x]) ! length xs)"
      by (auto simp add: nth_append less_Suc_eq)
    ultimately show ?thesis unfolding fold by blast
  next
    case False
    then have same: "scan_pixel t x = t" by (simp add: scan_step)
    from snoc.IH [unfolded t_def [symmetric]] show ?thesis
    proof
      assume a: "maxBrightness t = 0 \<and> scan_rgb t = black \<and> (\<forall>j<length xs. pixel_brightness (xs ! j) \<le> 0)"
      then have "\<forall>j<length (xs @ [x]). pixel_brightness ((xs @ [x]) ! j) \<le> 0"
        using False by (auto simp add: nth_append less_Suc_eq)
      then show ?thesis unfolding fold same using a by blast
    next
      assume "\<exists>k<length xs. 0 < pixel_brightness (xs ! k) \<and> scan_rgb t = pixel_rgb (xs ! k)
          \<and> maxBrightness t = pixel_brightness (xs ! k)
          \<and> (\<forall>j<length xs. pixel_brightness (xs ! j) \<le> pixel_brightness (xs ! k))
          \<and> (\<forall>j<k. pixel_brightness (xs ! j) < pixel_brightness (xs ! k))"
      then obtain k where k: "k < length xs" "0 < pixel_brightness (xs ! k)"
        "scan_rgb t = pixel_rgb (xs ! k)" "maxBrightness t = pixel_brightness (xs ! k)"
        "\<forall>j<length xs. pixel_brightness (xs ! j) \<le> pixel_brightness (xs ! k)"
        "\<forall>j<k. pixel_brightness (xs ! j) < pixel_brightness (xs ! k)" by blast
      have nk: "(xs @ [x]) ! k = xs ! k" using k(1) by (simp add: nth_append)
      have "k < length (xs @ [x])" using k(1) by simp
      moreover have "\<forall>j<length (xs @ [x]). pixel_brightness ((xs @ [x]) ! j) \<le> pixel_brightness (xs ! k)"
        using k(4,5) False by (auto simp add: nth_append less_Suc_eq)
      moreover have "\<forall>j<k. pixel_brightness ((xs @ [x]) ! j) < pixel_brightness (xs ! k)"
        using k(1,6) by (auto simp add: nth_append)
      ultimately show ?thesis unfolding fold same using k(2,3,4) nk by metis
    qed
  qed
qed

lemma getBrightestColor_scan:
  "getBrightestColor data =
     rgbToString
       (if 0 < maxChannel (scan_rgb (foldl scan_pixel scan_start data))
        then \<lparr>rgb_r = min 255 (js_mul (rgb_r (scan_rgb (foldl scan_pixel scan_start data))) (lit (12 / 10))),
              rgb_g = min 255 (js_mul (rgb_g (scan_rgb (foldl scan_pixel scan_start data))) (lit (12 / 10))),
              rgb_b = min 255 (js_mul (rgb_b (scan_rgb (foldl scan_pixel scan_start data))) (lit (12 / 10)))\<rparr>
        else scan_rgb (foldl scan_pixel scan_start data))"
  unfolding getBrightestColor_def Let_def rgbToString_def maxChannel_def scan_rgb_def scan_start_def
  by (simp split del: if_split cong: if_cong)

lemma maxChannel_pos_iff:
  assumes "0 \<le> rgb_r c" "0 \<le> rgb_g c" "0 \<le> rgb_b c"
  shows "0 < maxChannel c \<longleftrightarrow> c \<noteq> black"
proof
  assume "0 < maxChannel c"
  then show "c \<noteq> black" by (auto simp add: maxChannel_def black_def)
next
  assume "c \<noteq> black"
  then have "rgb_r c \<noteq> 0 \<or> rgb_g c \<noteq> 0 \<or> rgb_b c \<noteq> 0"
    by (cases c) (simp add: black_def)
  then show "0 < maxChannel c" using assms by (auto simp add: maxChannel_def max_def)
qed

lemma boost_as_scanned:
  assumes "0 \<le> rgb_r c" "0 \<le> rgb_g c" "0 \<le> rgb_b c"
  shows "(if 0 < maxChannel c
          then \<lparr>rgb_r = min 255 (js_mul (rgb_r c) (lit (12 / 10))),
                rgb_g = min 255 (js_mul (rgb_g c) (lit (12 / 10))),
                rgb_b = min 255 (js_mul (rgb_b c) (lit (12 / 10)))\<rparr>
          else c) = saturation_boost c"
  unfolding saturation_boost_def maxChannel_pos_iff [OF assms] by simp

lemma pixel_rgb_nonneg:
  "0 \<le> rgb_r (pixel_rgb p) \<and> 0 \<le> rgb_g (pixel_rgb p) \<and> 0 \<le> rgb_b (pixel_rgb p)"
  by (cases p) (simp add: pixel_rgb_def byte_nonneg)

lemma black_nonneg: "0 \<le> rgb_r black \<and> 0 \<le> rgb_g black \<and> 0 \<le> rgb_b black"
  by (simp add: black_def)

lemma tied_pixels_luminance: "luminance (tied_pixels ! 0) = luminance (tied_pixels ! 1)"
  by (simp add: luminance_def tied_pixels_def byte_def)

lemma tied_pixels_brightness:
  "pixel_brightness (tied_pixels ! 0) < pixel_brightness (tied_pixels ! 1)"
  by (simp add: tied_pixels_def pixel_brightness_def byte_def num_eval split del: if_split)

lemma tied_pixels_first_boosted:
  "rgbToString (saturation_boost (pixel_rgb (tied_pixels ! 0))) = ''rgb(0, 0, 102)''"
  by (simp add: tied_pixels_def pixel_rgb_def saturation_boost_def black_def byte_def
        num_eval str_eval split del: if_split)

lemma tied_pixels_second_boosted:
  "rgbToString (saturation_boost (pixel_rgb (tied_pixels ! 1))) = ''rgb(8, 13, 12)''"
  by (simp add: tied_pixels_def pixel_rgb_def saturation_boost_def black_def byte_def
        num_eval str_eval split del: if_split)

lemma tied_pixels_brightest: "getBrightestColor tied_pixels = ''rgb(8, 13, 12)''"
  by (simp add: tied_pixels_def getBrightestColor_def scan_pixel_def pixel_brightness_def byte_def
        num_eval str_eval split del: if_split)

text \<open>
  C4, as stated, fails. The pixels (0, 0, 85) and (7, 11, 10) have the same luminance
  Y = 0.299 R + 0.587 G + 0.114 B = 9.69. On the frame that holds them in this order the claim
  gives the first pixel, boosted: rgb(0, 0, 102). The luminance that the source computes in
  double arithmetic is smaller for the first pixel than for the second, and
  \<open>getBrightestColor\<close> returns the second pixel, boosted: rgb(8, 13, 12).
\<close>

theorem brightest_pixel_exact_tie_counterexample:
  "luminance (tied_pixels ! 0) = luminance (tied_pixels ! 1)
   \<and> rgbToString (saturation_boost (pixel_rgb (tied_pixels ! 0))) = ''rgb(0, 0, 102)''
   \<and> pixel_brightness (tied_pixels ! 0) < pixel_brightness (tied_pixels ! 1)
   \<and> rgbToString (saturation_boost (pixel_rgb (tied_pixels ! 1))) = ''rgb(8, 13, 12)''
   \<and> getBrightestColor tied_pixels = ''rgb(8, 13, 12)''"
  using tied_pixels_luminance tied_pixels_first_boosted tied_pixels_brightness
    tied_pixels_second_boosted tied_pixels_brightest
  by blast

text \<open>
  C4, amended. For every frame buffer with at least one pixel, \<open>getBrightestColor\<close>
  returns the colour of the pixel of maximal luminance, where the luminance of a pixel is the
  double that the source computes, (R * 0.299 + G * 0.587) + B * 0.114 with every product and
  sum rounded (\<open>pixel_brightness\<close>); among the pixels of maximal computed luminance it is
  the first in the order of the scan. If that pixel is not black, each channel is multiplied
  by 1.2 and clamped to 255. The colour is returned as a string, each channel rounded by
  \<open>Math_round\<close>.
\<close>

theorem brightest_pixel_first_maximum:
  assumes "data \<noteq> []"
  shows "\<exists>k<length data.
      (\<forall>j<length data. pixel_brightness (data ! j) \<le> pixel_brightness (data ! k))
    \<and> (\<forall>j<k. pixel_brightness (data ! j) < pixel_brightness (data ! k))
    \<and> getBrightestColor data = rgbToString (saturation_boost (pixel_rgb (data ! k)))"
proof -
  define s where "s = foldl scan_pixel scan_start data"
  have out: "getBrightestColor data = rgbToString (saturation_boost (scan_rgb s))"
    if "0 \<le> rgb_r (scan_rgb s) \<and> 0 \<le> rgb_g (scan_rgb s) \<and> 0 \<le> rgb_b (scan_rgb s)"
    using that boost_as_scanned [of "scan_rgb s"]
    by (simp only: getBrightestColor_scan s_def [symmetric])
  from scan_invariant [of data] show ?thesis
  proof
    assume a: "maxBrightness (foldl scan_pixel scan_start data) = 0
      \<and> scan_rgb (foldl scan_pixel scan_start data) = black
      \<and> (\<forall>j<length data. pixel_brightness (data ! j) \<le> 0)"
    have len: "0 < length data" using assms by simp
    have zero: "\<forall>j<length data. pixel_brightness (data ! j) = 0"
    proof (intro allI impI)
      fix j assume "j < length data"
      then have "pixel_brightness (data ! j) \<le> 0" using a by blast
      then show "pixel_brightness (data ! j) = 0"
        using pixel_brightness_nonneg [of "data ! j"] by linarith
    qed
    then have "pixel_brightness (data ! 0) = 0" using len by blast
    then have "pixel_rgb (data ! 0) = black"
      using pixel_brightness_pos [of "data ! 0"] by auto
    moreover have "scan_rgb s = black" using a by (simp add: s_def)
    ultimately have "getBrightestColor data = rgbToString (saturation_boost (pixel_rgb (data ! 0)))"
      using out black_nonneg by simp
    moreover have "\<forall>j<length data. pixel_brightness (data ! j) \<le> pixel_brightness (data ! 0)"
      using zero len by simp
    ultimately show ?thesis using len by auto
  next
    assume "\<exists>k<length data. 0 < pixel_brightness (data ! k)
        \<and> scan_rgb (foldl scan_pixel scan_start data) = pixel_rgb (data ! k)
        \<and> maxBrightness (foldl scan_pixel scan_start data) = pixel_brightness (data ! k)
        \<and> (\<forall>j<length data. pixel_brightness (data ! j) \<le> pixel_brightness (data ! k))
        \<and> (\<forall>j<k. pixel_brightness (data ! j) < pixel_brightness (data ! k))"
    then obtain k where k: "k < length data" "scan_rgb s = pixel_rgb (data ! k)"
      "\<forall>j<length data. pixel_brightness (data ! j) \<le> pixel_brightness (data ! k)"
      "\<forall>j<k. pixel_brightness (data ! j) < pixel_brightness (data ! k)"
      unfolding s_def by blast
    have "getBrightestColor data = rgbToString (saturation_boost (pixel_rgb (data ! k)))"
      using out pixel_rgb_nonneg [of "data ! k"] k(2) by simp
    then show ?thesis using k by blast
  qed
qed

theorem brightest_pixel_first_maximum_witness:
  "two_pixels \<noteq> [] \<and>
   (\<exists>k<length two_pixels.
      (\<forall>j<length two_pixels. pixel_brightness (two_pixels ! j) \<le> pixel_brightness (two_pixels ! k))
    \<and> (\<forall>j<k. pixel_brightness (two_pixels ! j) < pixel_brightness (two_pixels ! k))
    \<and> getBrightestColor two_pixels = rgbToString (saturation_boost (pixel_rgb (two_pixels ! k))))"
proof -
  have a: "two_pixels \<noteq> []" by (simp add: two_pixels_def)
  from a brightest_pixel_first_maximum [OF a] show ?thesis by (rule conjI)
qed

lemma example_two_pixels: "getBrightestColor two_pixels = ''rgb(240, 120, 60)''"
  by (simp add: two_pixels_def getBrightestColor_def scan_pixel_def pixel_brightness_def byte_def
        num_eval str_eval split del: if_split)

section \<open>The run of generatePattern\<close>

subsection \<open>The nested loops visit the cells in the order of their index\<close>

lemma emit_fields [simp]:
  "trace (emit e s) = trace s @ [e]" "hexIndex (emit e s) = hexIndex s"
  "cancelled (emit e s) = cancelled s" "newColors (emit e s) = newColors s"
  by (simp_all add: emit_def)

lemma suspend_fields [simp]:
  "trace (suspend v k s) = trace s @ (if cancel_at v = Some k then [CleanupRan] else [])"
  "hexIndex (suspend v k s) = hexIndex s"
  "cancelled (suspend v k s) = (cancelled s \<or> cancel_at v = Some k)"
  "newColors (suspend v k s) = newColors s"
  by (simp_all add: suspend_def)

lemma cell_fields:
  "hexIndex (cell cl v tot row col s) = Suc (hexIndex s)"
  "cancelled (cell cl v tot row col s) = (cancelled s \<or> cancel_at v = Some (Suc (hexIndex s)))"
  "newColors (cell cl v tot row col s) =
     newColors s @ (if colorFilter cl = frame_based then []
                    else [getBrightestColor (frame_at v (hexIndex s))])"
  "trace (cell cl v tot row col s) =
     trace s
     @ [SeekTo (js_mul (js_div (of_nat (hexIndex s)) (of_nat tot)) (duration v))]
     @ (if cancel_at v = Some (Suc (hexIndex s)) then [CleanupRan] else [])
     @ [drawHexagon cl (cell_x col) (cell_y row col) hexRadius
          (if colorFilter cl = frame_based then Image (frame_at v (hexIndex s))
           else Str (getBrightestColor (frame_at v (hexIndex s)))) (hexIndex s),
        SetProgress (js_mul (js_div (of_nat (Suc (hexIndex s))) (of_nat tot)) 100)]"
  by (simp_all add: cell_def Let_def)

lemma checked_cell_trace:
  "trace (cell cl v tot (hexIndex s div ncols) (hexIndex s mod ncols) (emit (ReadCancelled False) s))
     = trace s @ cell_events cl v tot ncols (hexIndex s)"
  by (simp add: cell_fields cell_events_def)

lemma columns_loop_flat:
  "hexIndex s = row * ncols + col \<Longrightarrow> col \<le> ncols \<Longrightarrow>
   columns_loop cl v tot ncols row col s = flat_loop cl v tot ncols (ncols - col) s"
proof (induction cl v tot ncols row col s rule: columns_loop.induct)
  case (1 cl v tot ncols row col s)
  show ?case
  proof (cases "col < ncols")
    case False
    then show ?thesis using "1.prems" by (subst columns_loop.simps) simp
  next
    case True
    then have n: "ncols - col = Suc (ncols - Suc col)" by simp
    have dm: "hexIndex s div ncols = row" "hexIndex s mod ncols = col"
      using True "1.prems"(1) by simp_all
    show ?thesis
    proof (cases "cancelled s")
      case c: True
      then show ?thesis using True by (subst columns_loop.simps) (simp add: n)
    next
      case c: False
      let ?s' = "cell cl v tot row col (emit (ReadCancelled False) s)"
      have "hexIndex ?s' = row * ncols + Suc col" using "1.prems"(1) by (simp add: cell_fields)
      from "1.IH" [OF True c this] True
      have "columns_loop cl v tot ncols row (Suc col) ?s' = flat_loop cl v tot ncols (ncols - Suc col) ?s'"
        by simp
      then show ?thesis using True c by (subst columns_loop.simps) (simp add: n dm)
    qed
  qed
qed

lemma flat_loop_add:
  "flat_loop cl v tot ncols (m + n) s =
     (case flat_loop cl v tot ncols m s of
        (Returned, s') \<Rightarrow> (Returned, s')
      | (Continues, s') \<Rightarrow> flat_loop cl v tot ncols n s')"
  by (induction m arbitrary: s) simp_all

lemma flat_loop_index:
  "flat_loop cl v tot ncols m s = (Continues, s') \<Longrightarrow> hexIndex s' = hexIndex s + m"
proof (induction m arbitrary: s)
  case 0
  then show ?case by simp
next
  case (Suc m)
  then show ?case by (auto simp add: cell_fields split: if_splits)
qed

lemma rows_loop_flat:
  "hexIndex s = row * ncols \<Longrightarrow> row \<le> nrows \<Longrightarrow>
   rows_loop cl v tot nrows ncols row s = flat_loop cl v tot ncols ((nrows - row) * ncols) s"
proof (induction cl v tot nrows ncols row s rule: rows_loop.induct)
  case (1 cl v tot nrows ncols row s)
  show ?case
  proof (cases "row < nrows")
    case False
    then show ?thesis using "1.prems" by (subst rows_loop.simps) simp
  next
    case True
    then have n: "(nrows - row) * ncols = ncols + (nrows - Suc row) * ncols"
      by (simp add: Suc_diff_Suc [symmetric] del: Suc_diff_Suc)
    have col: "columns_loop cl v tot ncols row 0 s = flat_loop cl v tot ncols ncols s"
      using columns_loop_flat [of s row ncols 0 cl v tot] "1.prems"(1) by simp
    obtain oc s' where r: "flat_loop cl v tot ncols ncols s = (oc, s')" by (cases "flat_loop cl v tot ncols ncols s")
    show ?thesis
    proof (cases oc)
      case Returned
      then show ?thesis using True r col
        by (subst rows_loop.simps) (simp add: n flat_loop_add)
    next
      case Continues
      then have "hexIndex s' = Suc row * ncols"
        using flat_loop_index [of cl v tot ncols ncols s s'] r "1.prems"(1) by simp
      moreover have "(Continues, s') = columns_loop cl v tot ncols row 0 s"
        using col r Continues by simp
      ultimately have "rows_loop cl v tot nrows ncols (Suc row) s'
          = flat_loop cl v tot ncols ((nrows - Suc row) * ncols) s'"
        using "1.IH" [OF True _ refl, of s'] True by simp
      then show ?thesis using True r col Continues
        by (subst rows_loop.simps) (simp add: n flat_loop_add)
    qed
  qed
qed

subsection \<open>The events of a run\<close>

lemma done_from_0: "done_from v 0 n = cells_done v n"
  by (simp add: done_from_def cells_done_def split: option.splits)

lemma raw_colors_step:
  "raw_colors cl v i (Suc m) =
     (if colorFilter cl = frame_based then [] else [getBrightestColor (frame_at v i)])
     @ raw_colors cl v (Suc i) m"
proof -
  have "[i..<i + Suc m] = i # [Suc i..<Suc i + m]" by (simp add: upt_conv_Cons)
  then show ?thesis unfolding raw_colors_def by (simp only: list.map) simp
qed

lemma flat_loop_closed:
  assumes "cancelled s \<longleftrightarrow> (\<exists>k. cancel_at v = Some k \<and> k \<le> hexIndex s)"
  shows "fst (flat_loop cl v tot ncols n s)
           = (if done_from v (hexIndex s) n < n then Returned else Continues)
    \<and> trace (snd (flat_loop cl v tot ncols n s))
           = trace s
             @ concat (map (cell_events cl v tot ncols)
                 [hexIndex s..<hexIndex s + done_from v (hexIndex s) n])
             @ (if done_from v (hexIndex s) n < n then [ReadCancelled True] else [])
    \<and> newColors (snd (flat_loop cl v tot ncols n s))
           = newColors s @ raw_colors cl v (hexIndex s) (done_from v (hexIndex s) n)"
  using assms
proof (induction n arbitrary: s)
  case 0
  then show ?case by (simp add: done_from_def raw_colors_def split: option.splits)
next
  case (Suc n)
  show ?case
  proof (cases "cancelled s")
    case True
    then obtain k where "cancel_at v = Some k" "k \<le> hexIndex s" using Suc.prems by blast
    then have "done_from v (hexIndex s) (Suc n) = 0" by (simp add: done_from_def)
    then show ?thesis using True by (simp add: raw_colors_def)
  next
    case False
    let ?i = "hexIndex s"
    let ?s1 = "cell cl v tot (?i div ncols) (?i mod ncols) (emit (ReadCancelled False) s)"
    have none: "\<not> (\<exists>k. cancel_at v = Some k \<and> k \<le> ?i)" using False Suc.prems by simp
    have i1: "hexIndex ?s1 = Suc ?i" by (simp add: cell_fields)
    have "cancelled ?s1 \<longleftrightarrow> (\<exists>k. cancel_at v = Some k \<and> k \<le> hexIndex ?s1)"
      using False none by (auto simp add: cell_fields le_Suc_eq)
    note ih = Suc.IH [OF this, unfolded i1]
    have d: "done_from v ?i (Suc n) = Suc (done_from v (Suc ?i) n)"
      using none by (auto simp add: done_from_def split: option.splits)
    have step: "flat_loop cl v tot ncols (Suc n) s = flat_loop cl v tot ncols n ?s1"
      using False by simp
    have t1: "trace ?s1 = trace s @ cell_events cl v tot ncols ?i" by (rule checked_cell_trace)
    have c1: "newColors ?s1 = newColors s
        @ (if colorFilter cl = frame_based then [] else [getBrightestColor (frame_at v ?i)])"
      by (simp add: cell_fields)
    have u: "[?i..<?i + Suc (done_from v (Suc ?i) n)] = ?i # [Suc ?i..<Suc ?i + done_from v (Suc ?i) n]"
      by (simp add: upt_conv_Cons)
    show ?thesis
      unfolding step d u using ih by (simp add: t1 c1 raw_colors_step)
  qed
qed

subsection \<open>The grid has 8 rows and 16 columns\<close>

lemma columns_16: "columns = 16"
  by (simp add: columns_def width_def hexRadius_def num_eval split del: if_split)

lemma sqrt3_bounds: "173 / 100 \<le> sqrt 3" "sqrt 3 \<le> 174 / 100"
proof -
  have "(173 / 100)\<^sup>2 \<le> (3::real)" by (simp add: power2_eq_square)
  then show "173 / 100 \<le> sqrt 3" by (rule real_le_rsqrt)
  have "(3::real) \<le> (174 / 100)\<^sup>2" by (simp add: power2_eq_square)
  then show "sqrt 3 \<le> 174 / 100" by (intro real_le_lsqrt) simp_all
qed

lemma hexHeight_bounds:
  "rnd (40 * rnd (173 / 100)) \<le> hexHeight" "hexHeight \<le> rnd (40 * rnd (174 / 100))"
proof -
  have "rnd (173 / 100) \<le> rnd (sqrt 3)" "rnd (sqrt 3) \<le> rnd (174 / 100)"
    using sqrt3_bounds by (simp_all only: rnd_mono)
  then have "40 * rnd (173 / 100) \<le> 40 * rnd (sqrt 3)" "40 * rnd (sqrt 3) \<le> 40 * rnd (174 / 100)"
    by simp_all
  then show "rnd (40 * rnd (173 / 100)) \<le> hexHeight" "hexHeight \<le> rnd (40 * rnd (174 / 100))"
    unfolding hexHeight_def hexRadius_def js_mul_def by (simp_all only: rnd_mono)
qed

lemma hexHeight_lower: "rnd (40 * rnd (173 / 100)) = 4869517097094349 / 70368744177664"
  by (simp add: num_eval split del: if_split)

lemma hexHeight_upper: "rnd (40 * rnd (174 / 100)) = 2448832297382707 / 35184372088832"
  by (simp add: num_eval split del: if_split)


lemma rows_8: "rows = 8"
proof -
  have h: "4869517097094349 / 70368744177664 \<le> hexHeight"
    "hexHeight \<le> 2448832297382707 / 35184372088832"
    using hexHeight_bounds by (simp_all only: hexHeight_lower hexHeight_upper)
  then have pos: "0 < hexHeight" by linarith
  have "600 / (2448832297382707 / 35184372088832) \<le> 600 / hexHeight"
    using h(2) pos by (intro divide_left_mono) simp_all
  then have "rnd (600 / (2448832297382707 / 35184372088832)) \<le> js_div height hexHeight"
    unfolding js_div_def height_def by (rule rnd_mono)
  moreover have "rnd (600 / (2448832297382707 / 35184372088832)) = 4853016839838897 / 562949953421312"
    by (simp add: num_eval split del: if_split)
  ultimately have lo: "8 \<le> js_div height hexHeight" by simp
  have "600 / hexHeight \<le> 600 / (4869517097094349 / 70368744177664)"
    using h(1) by (intro divide_left_mono) simp_all
  then have "js_div height hexHeight \<le> rnd (600 / (4869517097094349 / 70368744177664))"
    unfolding js_div_def height_def by (rule rnd_mono)
  moreover have "rnd (600 / (4869517097094349 / 70368744177664)) = 4881068960300393 / 562949953421312"
    by (simp add: num_eval split del: if_split)
  ultimately have hi: "js_div height hexHeight < 9" by simp
  have "\<lfloor>js_div height hexHeight\<rfloor> = 8" using lo hi by linarith
  then show ?thesis by (simp add: rows_def)
qed

lemma total_128: "rows * columns = 128"
  by (simp add: rows_8 columns_16)

lemma previous_argument_eq:
  "previous_argument cs i = (if 0 < i \<and> i \<le> length cs then Some (cs ! (i - 1)) else None)"
  by (auto simp add: previous_argument_def)

lemma drawHexagon_cell:
  "drawHexagon cl x y sz
     (if colorFilter cl = frame_based then Image (frame_at v i)
      else Str (getBrightestColor (frame_at v i))) i
   = DrawHexagon x y sz (cell_fill cl v i)"
  by (simp add: drawHexagon_def cell_fill_def previous_argument_eq)

lemma cell_events_explicit:
  "cell_events cl v tot ncols i =
     [ReadCancelled False,
      SeekTo (js_mul (js_div (of_nat i) (of_nat tot)) (duration v))]
     @ (if cancel_at v = Some (Suc i) then [CleanupRan] else [])
     @ [DrawHexagon (cell_x (i mod ncols)) (cell_y (i div ncols) (i mod ncols)) hexRadius
          (cell_fill cl v i),
        SetProgress (js_mul (js_div (of_nat (Suc i)) (of_nat tot)) 100)]"
  unfolding cell_events_def drawHexagon_cell ..

lemma loops_trace:
  assumes "hexIndex s = 0" "cancelled s \<longleftrightarrow> cancel_at v = Some 0"
  shows "fst (rows_loop cl v tot nrows ncols 0 s)
           = (if cells_done v (nrows * ncols) < nrows * ncols then Returned else Continues)
    \<and> trace (snd (rows_loop cl v tot nrows ncols 0 s))
           = trace s
             @ concat (map (cell_events cl v tot ncols) [0..<cells_done v (nrows * ncols)])
             @ (if cells_done v (nrows * ncols) < nrows * ncols then [ReadCancelled True] else [])
    \<and> newColors (snd (rows_loop cl v tot nrows ncols 0 s))
           = newColors s @ raw_colors cl v 0 (cells_done v (nrows * ncols))"
proof -
  have "rows_loop cl v tot nrows ncols 0 s = flat_loop cl v tot ncols (nrows * ncols) s"
    using rows_loop_flat [of s 0 ncols nrows cl v tot] assms(1) by simp
  moreover have "cancelled s \<longleftrightarrow> (\<exists>k. cancel_at v = Some k \<and> k \<le> hexIndex s)"
    using assms by simp
  ultimately show ?thesis
    using flat_loop_closed [of s v cl tot ncols "nrows * ncols"] assms(1)
    by (simp add: done_from_0)
qed

lemma generatePattern_trace:
  assumes "metadata_loads v" "tempCtx_available v"
  shows "trace (generatePattern cl v) =
     [SetProgress 0, SetError [], SetColors [], AwaitMetadata]
     @ (if cancel_at v = Some 0 then [CleanupRan] else [])
     @ [CanvasCleared]
     @ concat (map (cell_events cl v (rows * columns) columns)
         [0..<cells_done v (rows * columns)])
     @ (if cells_done v (rows * columns) < rows * columns then [ReadCancelled True]
        else if colorFilter cl \<noteq> frame_based
             then [SetColors (raw_colors cl v 0 (rows * columns))] else [])"
proof -
  define s2 where "s2 = emit CanvasCleared (suspend v 0 (emit AwaitMetadata
      (emit (SetColors []) (emit (SetError []) (emit (SetProgress 0)
         \<lparr>cancelled = False, hexIndex = 0, newColors = [], trace = []\<rparr>)))))"
  have s2: "hexIndex s2 = 0" "cancelled s2 \<longleftrightarrow> cancel_at v = Some 0" "newColors s2 = []"
    "trace s2 = [SetProgress 0, SetError [], SetColors [], AwaitMetadata]
       @ (if cancel_at v = Some 0 then [CleanupRan] else []) @ [CanvasCleared]"
    by (simp_all add: s2_def)
  obtain oc s' where r: "rows_loop cl v (rows * columns) rows columns 0 s2 = (oc, s')"
    by (cases "rows_loop cl v (rows * columns) rows columns 0 s2")
  note lt = loops_trace [OF s2(1,2), of cl "rows * columns" rows columns, unfolded r fst_conv snd_conv]
  have g: "generatePattern cl v =
      (case oc of Returned \<Rightarrow> s'
       | Continues \<Rightarrow> if colorFilter cl \<noteq> frame_based then emit (SetColors (newColors s')) s' else s')"
    using assms r by (simp add: generatePattern_def Let_def s2_def [symmetric])
  show ?thesis
  proof (cases "cells_done v (rows * columns) < rows * columns")
    case True
    then have "oc = Returned" using lt by simp
    then show ?thesis using lt True by (simp add: g s2)
  next
    case False
    then have "oc = Continues" using lt by simp
    moreover have "cells_done v (rows * columns) = rows * columns"
      using False by (simp add: cells_done_def split: option.splits)
    ultimately show ?thesis using lt by (simp add: g s2)
  qed
qed

lemma hexagons_append: "hexagons (xs @ ys) = hexagons xs @ hexagons ys"
  by (simp add: hexagons_def)

lemma hexagons_cell_events:
  "hexagons (cell_events cl v tot ncols i) =
     [DrawHexagon (cell_x (i mod ncols)) (cell_y (i div ncols) (i mod ncols)) hexRadius
        (cell_fill cl v i)]"
  by (simp add: cell_events_explicit hexagons_def)

lemma hexagons_cells:
  "hexagons (concat (map (cell_events cl v tot ncols) is)) =
     map (\<lambda>i. DrawHexagon (cell_x (i mod ncols)) (cell_y (i div ncols) (i mod ncols)) hexRadius
                 (cell_fill cl v i)) is"
  by (induction "is") (simp_all add: hexagons_append hexagons_cell_events, simp add: hexagons_def)

lemma hexagons_generatePattern:
  assumes "metadata_loads v" "tempCtx_available v"
  shows "hexagons (trace (generatePattern cl v)) =
     map (\<lambda>i. DrawHexagon (cell_x (i mod columns)) (cell_y (i div columns) (i mod columns))
                 hexRadius (cell_fill cl v i))
       [0..<cells_done v (rows * columns)]"
proof -
  have "hexagons [SetProgress 0, SetError [], SetColors [], AwaitMetadata] = []"
    "hexagons (if cancel_at v = Some 0 then [CleanupRan] else []) = []"
    "hexagons [CanvasCleared] = []"
    "hexagons (if cells_done v (rows * columns) < rows * columns then [ReadCancelled True]
        else if colorFilter cl \<noteq> frame_based
             then [SetColors (raw_colors cl v 0 (rows * columns))] else []) = []"
    by (simp_all add: hexagons_def)
  then show ?thesis
    unfolding generatePattern_trace [OF assms] hexagons_append hexagons_cells by simp
qed

subsection \<open>Order of the cells and sampling times\<close>

text \<open>
  C5. The cells are processed in row-major order: in a grid of R rows and C columns, with
  N = R C cells, an uncancelled run of the two nested loops emits the events of the cells
  0, 1, ..., N - 1 in this order, the hexagon of the cell with index i lies at column
  \<open>i mod C\<close> of row \<open>i div C\<close>, and its frame is sampled at the timestamp
  (i / N) duration. \<open>generatePattern\<close> runs the loops with R = 8 and C = 16.
\<close>

theorem row_major_sampling:
  assumes "cancel_at v = None" "hexIndex s = 0" "\<not> cancelled s"
  shows "trace (snd (rows_loop cl v (R * C) R C 0 s))
           = trace s @ concat (map (cell_events cl v (R * C) C) [0..<R * C])
    \<and> (\<forall>i. cell_events cl v (R * C) C i =
           [ReadCancelled False,
            SeekTo (js_mul (js_div (of_nat i) (of_nat (R * C))) (duration v)),
            DrawHexagon (cell_x (i mod C)) (cell_y (i div C) (i mod C)) hexRadius (cell_fill cl v i),
            SetProgress (js_mul (js_div (of_nat (Suc i)) (of_nat (R * C))) 100)])"
proof
  have "cancelled s \<longleftrightarrow> cancel_at v = Some 0" using assms by simp
  from loops_trace [OF assms(2) this, of cl "R * C" R C]
  show "trace (snd (rows_loop cl v (R * C) R C 0 s))
           = trace s @ concat (map (cell_events cl v (R * C) C) [0..<R * C])"
    using assms(1) by (simp add: cells_done_def)
  show "\<forall>i. cell_events cl v (R * C) C i =
           [ReadCancelled False,
            SeekTo (js_mul (js_div (of_nat i) (of_nat (R * C))) (duration v)),
            DrawHexagon (cell_x (i mod C)) (cell_y (i div C) (i mod C)) hexRadius (cell_fill cl v i),
            SetProgress (js_mul (js_div (of_nat (Suc i)) (of_nat (R * C))) 100)]"
    using assms(1) by (simp add: cell_events_explicit)
qed

theorem row_major_sampling_witness:
  "cancel_at two_frames = None \<and> hexIndex run_start = 0 \<and> \<not> cancelled run_start
   \<and> trace (snd (rows_loop first_run two_frames (2 * 3) 2 3 0 run_start))
        = trace run_start @ concat (map (cell_events first_run two_frames (2 * 3) 3) [0..<2 * 3])"
proof -
  have a: "cancel_at two_frames = None" by (simp add: two_frames_def)
  have b: "hexIndex run_start = 0" and c: "\<not> cancelled run_start" by (simp_all add: run_start_def)
  from row_major_sampling [OF a b c, of first_run 2 3] a b c show ?thesis by blast
qed

lemma white_frame: "getBrightestColor [(255, 255, 255, 255)] = ''rgb(255, 255, 255)''"
  by (simp add: getBrightestColor_def scan_pixel_def pixel_brightness_def byte_def
        num_eval str_eval split del: if_split)

lemma black_frame: "getBrightestColor [(0, 0, 0, 255)] = ''rgb(0, 0, 0)''"
  by (simp add: getBrightestColor_def scan_pixel_def pixel_brightness_def byte_def
        num_eval str_eval split del: if_split)

lemma flow_white_first: "applyColorFilter ''rgb(255, 255, 255)'' gradient_flow None = ''rgb(255, 255, 255)''"
  by (simp add: num_eval str_eval filter_eval split del: if_split)

lemma flow_black_alone: "applyColorFilter ''rgb(0, 0, 0)'' gradient_flow None = ''rgb(0, 0, 0)''"
  by (simp add: num_eval str_eval filter_eval split del: if_split)

lemma flow_black_after_white:
  "applyColorFilter ''rgb(0, 0, 0)'' gradient_flow (Some ''rgb(255, 255, 255)'') = ''rgb(77, 77, 77)''"
  by (simp add: num_eval str_eval filter_eval split del: if_split)

subsection \<open>The previous colour\<close>

lemma two_frames_ok:
  "metadata_loads two_frames" "tempCtx_available two_frames"
  "cells_done two_frames n = n"
  by (simp_all add: two_frames_def cells_done_def)

text \<open>
  What \<open>drawHexagon\<close> passes as the previous colour: for the cell with index i > 0, the
  entry i - 1 of the array \<^verbatim>\<open>colors\<close>, the state of the component as the closure of the
  effect holds it. The run collects the extracted colours in \<^verbatim>\<open>newColors\<close> and hands
  them to \<^verbatim>\<open>setColors\<close> when it completes; it never writes to the array it reads.
\<close>

lemma drawHexagon_reads_captured_colors:
  assumes "metadata_loads v" "tempCtx_available v" "colorFilter cl \<noteq> frame_based"
    and "i < cells_done v (rows * columns)"
  shows "hexagons (trace (generatePattern cl v)) ! i
      = DrawHexagon (cell_x (i mod columns)) (cell_y (i div columns) (i mod columns)) hexRadius
          (FillStyle (applyColorFilter (getBrightestColor (frame_at v i)) (colorFilter cl)
             (if 0 < i \<and> i \<le> length (colors cl) then Some (colors cl ! (i - 1)) else None)))"
  using assms(3,4) by (simp add: hexagons_generatePattern [OF assms(1,2)] cell_fill_def)

lemma completed_run_stores_extracted_colors:
  assumes "metadata_loads v" "tempCtx_available v" "colorFilter cl \<noteq> frame_based"
    and "cells_done v (rows * columns) = rows * columns"
  shows "last (trace (generatePattern cl v))
      = SetColors (map (\<lambda>k. getBrightestColor (frame_at v k)) [0..<rows * columns])"
  using assms(3,4) by (simp add: generatePattern_trace [OF assms(1,2)] raw_colors_def)

text \<open>
  C1. The code departs from the claim. \<open>drawHexagon\<close> passes
  \<^verbatim>\<open>colors[index - 1]\<close> for every cell after the first, but \<^verbatim>\<open>colors\<close> is the
  state captured when the effect started, which the run does not update. In the first run of
  the component the array is empty: on a video whose first frame is white and whose second
  frame is black, under the gradient-flow filter, the filtered output of cell 0 is
  rgb(255, 255, 255), the previous-colour argument of cell 1 is absent, and cell 1 is filled
  with rgb(0, 0, 0); given the filtered output of cell 0, the filter returns
  rgb(77, 77, 77).
\<close>

theorem first_run_passes_no_previous_color:
  "hexagons (trace (generatePattern first_run two_frames)) ! 0
     = DrawHexagon (cell_x 0) (cell_y 0 0) hexRadius (FillStyle ''rgb(255, 255, 255)'')
   \<and> previous_argument (colors first_run) 1 = None
   \<and> hexagons (trace (generatePattern first_run two_frames)) ! 1
     = DrawHexagon (cell_x 1) (cell_y 0 1) hexRadius (FillStyle ''rgb(0, 0, 0)'')
   \<and> applyColorFilter ''rgb(0, 0, 0)'' gradient_flow (Some ''rgb(255, 255, 255)'')
     = ''rgb(77, 77, 77)''"
proof -
  have f0: "cell_fill first_run two_frames 0 = FillStyle ''rgb(255, 255, 255)''"
    by (simp add: cell_fill_def first_run_def two_frames_def white_frame flow_white_first)
  have f1: "cell_fill first_run two_frames 1 = FillStyle ''rgb(0, 0, 0)''"
    by (simp add: cell_fill_def first_run_def two_frames_def black_frame flow_black_alone)
  have h: "hexagons (trace (generatePattern first_run two_frames)) ! i
      = DrawHexagon (cell_x (i mod 16)) (cell_y (i div 16) (i mod 16)) hexRadius
          (cell_fill first_run two_frames i)" if "i < 128" for i
    using that
    by (simp add: hexagons_generatePattern [OF two_frames_ok(1,2)] two_frames_ok(3) total_128)
       (simp add: columns_16)
  have h0: "hexagons (trace (generatePattern first_run two_frames)) ! 0
     = DrawHexagon (cell_x 0) (cell_y 0 0) hexRadius (FillStyle ''rgb(255, 255, 255)'')"
    using h [of 0] f0 by simp
  have h1: "hexagons (trace (generatePattern first_run two_frames)) ! 1
     = DrawHexagon (cell_x 1) (cell_y 0 1) hexRadius (FillStyle ''rgb(0, 0, 0)'')"
    using h [of 1] f1 by simp
  have p: "previous_argument (colors first_run) 1 = None"
    by (simp add: previous_argument_def first_run_def)
  from h0 p h1 flow_black_after_white show ?thesis by blast
qed

subsection \<open>Cancellation\<close>

















end
